theory Spec2Isabelle
  imports Complex_Main "HOL-Library.Multiset" "HOL-Library.Product_Lexorder"
begin

section \<open>Data model (types.ts, constants.ts)\<close>

text \<open>
  Grid coordinates and sizes are JavaScript numbers that only ever hold integers
  here; they are modelled as \<open>int\<close>. An optional field (\<open>sizeX?: number\<close>) is an
  \<open>option\<close>, \<open>None\<close> standing for \<open>undefined\<close> or an absent property.
\<close>

datatype special_type = AXLE | TIRE

record BrickData =
  brick_id :: string
  brick_x :: int
  brick_y :: int
  brick_z :: int
  color :: string
  sizeX :: "int option"
  sizeZ :: "int option"
  rotation :: "int option"
  specialType :: "special_type option"
  offsetX :: "int option"
  offsetY :: "int option"
  offsetZ :: "int option"

record BrickType =
  label :: string
  type_sizeX :: int
  type_sizeZ :: int
  type_specialType :: "special_type option"

text \<open>The JavaScript idiom \<open>v || d\<close> on an optional number: \<open>undefined\<close> and \<open>0\<close> are falsy.\<close>

definition or_num :: "int option \<Rightarrow> int \<Rightarrow> int" where
  "or_num v d = (case v of None \<Rightarrow> d | Some n \<Rightarrow> if n = 0 then d else n)"

section \<open>History (hooks/useHistory.ts, and the same code inlined in App.tsx)\<close>

text \<open>
  The three \<open>useState\<close> cells of the hook. The index starts at 0 and is decremented
  only when it is positive, so it is a natural number.
\<close>

record history_state =
  bricks :: "BrickData list"
  history :: "BrickData list list"
  currentHistoryIndex :: nat

definition useHistory :: "BrickData list \<Rightarrow> history_state" where
  "useHistory initialBricks =
     \<lparr>bricks = initialBricks, history = [initialBricks], currentHistoryIndex = 0\<rparr>"

text \<open>
  \<open>saveToHistory\<close> is a closure made by \<open>useCallback\<close> with the dependency
  \<open>currentHistoryIndex\<close>: each render makes one, and it slices the history at the index
  of the render that made it (\<open>capturedIndex\<close>), while \<open>setHistory\<close> and
  \<open>setCurrentHistoryIndex\<close> act on the live state (\<open>prev\<close>). A handler that runs in
  response to an event calls the closure of the current render, whose captured index
  is the live one; a handler that resumes after an \<open>await\<close> calls the closure of the
  render in which it started. \<open>prev.slice(0, capturedIndex + 1)\<close> is \<open>take\<close>: past the end
  it keeps the whole array.
\<close>

definition saveToHistory ::
  "nat \<Rightarrow> BrickData list \<Rightarrow> 'a history_state_scheme \<Rightarrow> 'a history_state_scheme" where
  "saveToHistory capturedIndex newBricks s =
     s\<lparr>history := take (capturedIndex + 1) (history s) @ [newBricks],
       currentHistoryIndex := currentHistoryIndex s + 1,
       bricks := newBricks\<rparr>"

text \<open>
  \<open>undo\<close> and \<open>redo\<close> are closures over the history and the index, called from the
  key handler and the toolbar of the current render. \<open>if (history[newIndex])\<close>: an array
  element is truthy exactly when the index is in range (every array, also the empty
  one, is truthy).
\<close>

definition undo :: "'a history_state_scheme \<Rightarrow> 'a history_state_scheme" where
  "undo s =
     (if currentHistoryIndex s > 0 then
        (let newIndex = currentHistoryIndex s - 1;
             s1 = s\<lparr>currentHistoryIndex := newIndex\<rparr>
         in if newIndex < length (history s) then s1\<lparr>bricks := history s ! newIndex\<rparr> else s1)
      else s)"

definition redo :: "'a history_state_scheme \<Rightarrow> 'a history_state_scheme" where
  "redo s =
     (if int (currentHistoryIndex s) < int (length (history s)) - 1 then
        (let newIndex = currentHistoryIndex s + 1;
             s1 = s\<lparr>currentHistoryIndex := newIndex\<rparr>
         in if newIndex < length (history s) then s1\<lparr>bricks := history s ! newIndex\<rparr> else s1)
      else s)"

section \<open>Connectivity: the upward-support traversal (App.tsx, getLiftableBricks)\<close>

text \<open>
  The inner helper \<open>isOverlapping\<close>: the footprints \<open>[x, x + sizeX) \<times> [z, z + sizeZ)\<close>
  of the two bricks intersect, a missing or zero size counting as 1.
\<close>

definition isOverlapping :: "BrickData \<Rightarrow> BrickData \<Rightarrow> bool" where
  "isOverlapping b1 b2 =
     (let b1W = or_num (sizeX b1) 1;
          b1D = or_num (sizeZ b1) 1;
          b2W = or_num (sizeX b2) 1;
          b2D = or_num (sizeZ b2) 1;
          xOverlap = max (brick_x b1) (brick_x b2) < min (brick_x b1 + b1W) (brick_x b2 + b2W);
          zOverlap = max (brick_z b1) (brick_z b2) < min (brick_z b1 + b1D) (brick_z b2 + b2D)
      in xOverlap \<and> zOverlap)"

text \<open>
  A JavaScript \<open>Set\<close> is a list without repetitions in insertion order; \<open>add\<close> appends
  a value that is not yet a member.
\<close>

definition set_add :: "'a \<Rightarrow> 'a list \<Rightarrow> 'a list" where
  "set_add v xs = (if v \<in> set xs then xs else xs @ [v])"

text \<open>The filter of the \<open>while\<close> loop: the bricks immediately on top of \<open>current\<close>.\<close>

definition supported_by :: "BrickData list \<Rightarrow> string list \<Rightarrow> BrickData \<Rightarrow> BrickData list" where
  "supported_by allBricks resultIds current =
     filter (\<lambda>b. brick_id b \<notin> set resultIds
                 \<and> brick_y b = brick_y current + 1
                 \<and> isOverlapping current b) allBricks"

text \<open>
  The \<open>while (queue.length > 0)\<close> loop, on the queue and the set of collected ids.
  \<open>queue.shift()\<close> takes the head; each supported brick is added to the set and pushed.
\<close>

function liftable_loop :: "BrickData list \<Rightarrow> BrickData list \<Rightarrow> string list \<Rightarrow> string list" where
  "liftable_loop allBricks [] resultIds = resultIds"
| "liftable_loop allBricks (current # queue) resultIds =
     (let supported = supported_by allBricks resultIds current
      in liftable_loop allBricks (queue @ supported)
           (fold (\<lambda>b r. set_add (brick_id b) r) supported resultIds))"
  by pat_completeness auto

text \<open>
  The loop terminates: each round takes one brick off the queue, and every brick it pushes
  has an id that was not collected before and is collected afterwards.
\<close>

lemma set_fold_set_add: "set (fold (\<lambda>b r. set_add (brick_id b) r) bs r) = set r \<union> brick_id ` set bs"
  by (induction bs arbitrary: r) (auto simp: set_add_def)

lemma length_filter_le_split:
  "length (filter P xs) = length (filter (\<lambda>x. P x \<and> Q x) xs) + length (filter (\<lambda>x. P x \<and> \<not> Q x) xs)"
  by (induction xs) auto

lemma liftable_measure:
  "length (filter (\<lambda>b. brick_id b \<notin> set r \<union> brick_id ` set (supported_by allBricks r c)) allBricks)
     + length (supported_by allBricks r c)
   \<le> length (filter (\<lambda>b. brick_id b \<notin> set r) allBricks)"
proof -
  define S where "S = brick_id ` set (supported_by allBricks r c)"
  define Q where "Q = (\<lambda>b. brick_y b = brick_y c + 1 \<and> isOverlapping c b)"
  have sup: "supported_by allBricks r c = filter (\<lambda>b. brick_id b \<notin> set r \<and> Q b) allBricks"
    by (simp add: supported_by_def Q_def)
  have mem: "brick_id b \<in> S" if "b \<in> set allBricks" "brick_id b \<notin> set r" "Q b" for b
    unfolding S_def sup using that by simp
  have "filter (\<lambda>b. brick_id b \<notin> set r \<and> Q b) allBricks
      = filter Q (filter (\<lambda>b. brick_id b \<notin> set r \<and> brick_id b \<in> S) allBricks)"
    unfolding filter_filter
    by (rule filter_cong [OF refl]) (use mem in blast)
  then have "length (supported_by allBricks r c)
      \<le> length (filter (\<lambda>b. brick_id b \<notin> set r \<and> brick_id b \<in> S) allBricks)"
    unfolding sup by (simp only: length_filter_le)
  moreover have "length (filter (\<lambda>b. brick_id b \<notin> set r) allBricks)
      = length (filter (\<lambda>b. brick_id b \<notin> set r \<and> brick_id b \<in> S) allBricks)
        + length (filter (\<lambda>b. brick_id b \<notin> set r \<and> brick_id b \<notin> S) allBricks)"
    by (rule length_filter_le_split)
  moreover have "length (filter (\<lambda>b. brick_id b \<notin> set r \<union> S) allBricks)
      = length (filter (\<lambda>b. brick_id b \<notin> set r \<and> brick_id b \<notin> S) allBricks)"
    by (rule arg_cong [where f = length], rule filter_cong [OF refl]) simp
  ultimately show ?thesis unfolding S_def [symmetric] by linarith
qed

termination liftable_loop
proof (relation "measure (\<lambda>(allBricks, queue, resultIds).
          2 * length (filter (\<lambda>b. brick_id b \<notin> set resultIds) allBricks) + length queue)")
  show "wf (measure (\<lambda>(allBricks, queue, resultIds).
          2 * length (filter (\<lambda>b. brick_id b \<notin> set resultIds) allBricks) + length queue))"
    by simp
next
  fix allBricks :: "BrickData list" and current queue resultIds supported
  assume "supported = supported_by allBricks resultIds current"
  with liftable_measure [of resultIds allBricks current]
  show "((allBricks, queue @ supported,
           fold (\<lambda>b r. set_add (brick_id b) r) supported resultIds),
          (allBricks, current # queue, resultIds))
        \<in> measure (\<lambda>(allBricks, queue, resultIds).
          2 * length (filter (\<lambda>b. brick_id b \<notin> set resultIds) allBricks) + length queue)"
    by (simp add: set_fold_set_add)
qed

definition getLiftableBricks :: "string \<Rightarrow> BrickData list \<Rightarrow> string list" where
  "getLiftableBricks startBrickId allBricks =
     (case find (\<lambda>b. brick_id b = startBrickId) allBricks of
        None \<Rightarrow> []
      | Some startBrick \<Rightarrow> liftable_loop allBricks [startBrick] [startBrickId])"

section \<open>Strings: template literals, split, parseInt and Number\<close>

text \<open>
  The packer keys its \<open>Map\<close> and \<open>Set\<close>s by strings built with template literals
  (\<open>`${b.y},${b.color}`\<close>, \<open>`${b.x},${b.z}`\<close>) and reads them back with \<open>split(',')\<close>,
  \<open>parseInt\<close> and \<open>Number\<close>. A template literal prints an integer in decimal, with a
  leading minus sign when it is negative.
\<close>

definition digit_char :: "nat \<Rightarrow> char" where
  "digit_char n = ''0123456789'' ! n"

function nat_to_string :: "nat \<Rightarrow> string" where
  "nat_to_string n =
     (if n < 10 then [digit_char n] else nat_to_string (n div 10) @ [digit_char (n mod 10)])"
  by pat_completeness auto
termination
  by (relation "measure id") auto

declare nat_to_string.simps [simp del]

definition num_to_string :: "int \<Rightarrow> string" where
  "num_to_string i = (if i < 0 then CHR ''-'' # nat_to_string (nat (- i)) else nat_to_string (nat i))"

text \<open>\<open>s.split(sep)\<close> for a one-character separator: never empty, \<open>''''\<close> gives \<open>['''']\<close>.\<close>

fun js_split :: "char \<Rightarrow> string \<Rightarrow> string list" where
  "js_split sep [] = [[]]"
| "js_split sep (c # cs) =
     (if c = sep then [] # js_split sep cs
      else (case js_split sep cs of p # ps \<Rightarrow> (c # p) # ps | [] \<Rightarrow> [[c]]))"

definition is_digit :: "char \<Rightarrow> bool" where
  "is_digit c \<longleftrightarrow> c \<in> set ''0123456789''"

definition digit_val :: "char \<Rightarrow> nat" where
  "digit_val c = of_char c - 48"

definition parse_digits :: "string \<Rightarrow> nat" where
  "parse_digits ds = fold (\<lambda>c a. 10 * a + digit_val c) ds 0"

text \<open>
  \<open>parseInt\<close> reads an optional minus sign and the longest prefix of decimal digits;
  \<open>Number\<close> converts the whole string, the empty string to 0. \<open>None\<close> is \<open>NaN\<close>. (Leading
  white space, a plus sign, hexadecimal and exponents, which JavaScript also accepts,
  do not occur in a string printed from an integer and are left out.)
\<close>

definition parseInt :: "string \<Rightarrow> int option" where
  "parseInt s =
     (case s of
        [] \<Rightarrow> None
      | c # cs \<Rightarrow>
          if c = CHR ''-'' then
            (if takeWhile is_digit cs = [] then None
             else Some (- int (parse_digits (takeWhile is_digit cs))))
          else
            (if takeWhile is_digit s = [] then None
             else Some (int (parse_digits (takeWhile is_digit s)))))"

definition Number :: "string \<Rightarrow> int option" where
  "Number s =
     (case s of
        [] \<Rightarrow> Some 0
      | c # cs \<Rightarrow>
          if c = CHR ''-'' then
            (if cs \<noteq> [] \<and> list_all is_digit cs then Some (- int (parse_digits cs)) else None)
          else
            (if list_all is_digit s then Some (int (parse_digits s)) else None))"

text \<open>
  Brick coordinates are integers in this model, which has no \<open>NaN\<close>: a parse that
  yields \<open>NaN\<close> is read as 0. In the packer this never happens, since every string it
  parses was printed from an integer.
\<close>

definition num :: "int option \<Rightarrow> int" where
  "num v = (case v of None \<Rightarrow> 0 | Some n \<Rightarrow> n)"

section \<open>The voxel packer (utils/brickUtils.ts, optimizeBricks)\<close>

record RawBrick =
  raw_x :: int
  raw_y :: int
  raw_z :: int
  raw_color :: string

definition BRICK_TYPES :: "BrickType list" where
  "BRICK_TYPES =
     [\<lparr>label = ''1x1'', type_sizeX = 1, type_sizeZ = 1, type_specialType = None\<rparr>,
      \<lparr>label = ''1x2'', type_sizeX = 1, type_sizeZ = 2, type_specialType = None\<rparr>,
      \<lparr>label = ''1x3'', type_sizeX = 1, type_sizeZ = 3, type_specialType = None\<rparr>,
      \<lparr>label = ''1x4'', type_sizeX = 1, type_sizeZ = 4, type_specialType = None\<rparr>,
      \<lparr>label = ''2x2'', type_sizeX = 2, type_sizeZ = 2, type_specialType = None\<rparr>,
      \<lparr>label = ''2x3'', type_sizeX = 2, type_sizeZ = 3, type_specialType = None\<rparr>,
      \<lparr>label = ''2x4'', type_sizeX = 2, type_sizeZ = 4, type_specialType = None\<rparr>,
      \<lparr>label = ''2x2 Axle'', type_sizeX = 2, type_sizeZ = 2, type_specialType = Some AXLE\<rparr>,
      \<lparr>label = ''Wheel'', type_sizeX = 1, type_sizeZ = 1, type_specialType = Some TIRE\<rparr>]"

definition MAX_BOARD_SIZE :: int where
  "MAX_BOARD_SIZE = 20"

definition layer_key :: "RawBrick \<Rightarrow> string" where
  "layer_key b = num_to_string (raw_y b) @ '','' @ raw_color b"

definition coord_key :: "int \<Rightarrow> int \<Rightarrow> string" where
  "coord_key cx cz = num_to_string cx @ '','' @ num_to_string cz"

text \<open>
  \<open>bricksByLayerColor\<close> is a \<open>Map\<close> from keys to \<open>Set\<close>s of coordinate strings: an
  association list in insertion order. One round of the first \<open>forEach\<close> creates the
  key's set when the key is new and adds the coordinate string to it.
\<close>

fun map_add_coord ::
  "string \<Rightarrow> string \<Rightarrow> (string \<times> string list) list \<Rightarrow> (string \<times> string list) list" where
  "map_add_coord key v [] = [(key, [v])]"
| "map_add_coord key v ((k, vs) # m) =
     (if k = key then (k, set_add v vs) # m else (k, vs) # map_add_coord key v m)"

definition bricksByLayerColor :: "RawBrick list \<Rightarrow> (string \<times> string list) list" where
  "bricksByLayerColor rawBricks =
     fold (\<lambda>b m. map_add_coord (layer_key b) (coord_key (raw_x b) (raw_z b)) m) rawBricks []"

text \<open>
  \<open>Array.prototype.sort\<close> is stable. The comparator \<open>b.sizeX * b.sizeZ - a.sizeX * a.sizeZ\<close>
  orders by descending area, that is by ascending negated area.
\<close>

definition standardTypes :: "BrickType list" where
  "standardTypes =
     sort_key (\<lambda>t. - (type_sizeX t * type_sizeZ t))
       (filter (\<lambda>t. type_specialType t = None) BRICK_TYPES)"

text \<open>The cells \<open>(x + i, z + j)\<close> for \<open>i < w\<close>, \<open>j < d\<close>, in the order of the two nested loops.\<close>

definition rect_cells :: "int \<Rightarrow> int \<Rightarrow> int \<Rightarrow> int \<Rightarrow> (int \<times> int) list" where
  "rect_cells cx cz w d = concat (map (\<lambda>i. map (\<lambda>j. (cx + i, cz + j)) [0..d - 1]) [0..w - 1])"

text \<open>
  The two nested loops that set \<open>fit\<close>: they leave it true exactly when every cell of
  the rectangle is in the group's set and not yet processed.
\<close>

definition fits :: "string list \<Rightarrow> string list \<Rightarrow> int \<Rightarrow> int \<Rightarrow> int \<Rightarrow> int \<Rightarrow> bool" where
  "fits coordsSet processed cx cz w d =
     list_all (\<lambda>(px, pz). coord_key px pz \<in> set coordsSet \<and> coord_key px pz \<notin> set processed)
       (rect_cells cx cz w d)"

text \<open>The loop over \<open>standardTypes\<close>: the first type that fits, upright or else rotated.\<close>

fun findBestFit ::
  "string list \<Rightarrow> string list \<Rightarrow> int \<Rightarrow> int \<Rightarrow> BrickType list \<Rightarrow> (BrickType \<times> bool) option" where
  "findBestFit coordsSet processed cx cz [] = None"
| "findBestFit coordsSet processed cx cz (brickType # rest) =
     (if fits coordsSet processed cx cz (type_sizeX brickType) (type_sizeZ brickType)
      then Some (brickType, False)
      else if type_sizeX brickType \<noteq> type_sizeZ brickType
            \<and> fits coordsSet processed cx cz (type_sizeZ brickType) (type_sizeX brickType)
      then Some (brickType, True)
      else findBestFit coordsSet processed cx cz rest)"

text \<open>
  One round of \<open>coords.forEach\<close>, on the set \<open>processed\<close> and the output array
  \<open>optimized\<close>. The function \<open>uuidv4\<close> lists the ids that the calls of \<open>uuidv4()\<close>
  return during one run of \<open>optimizeBricks\<close>: one call is made for each brick pushed,
  so the brick pushed onto \<open>optimized\<close> gets the id number \<open>length optimized\<close>.
\<close>

definition place_coord ::
  "(nat \<Rightarrow> string) \<Rightarrow> BrickType list \<Rightarrow> string list \<Rightarrow> int \<Rightarrow> string \<Rightarrow> int \<times> int
     \<Rightarrow> string list \<times> BrickData list \<Rightarrow> string list \<times> BrickData list" where
  "place_coord uuidv4 types coordsSet py pcolor c st =
     (case c of (cx, cz) \<Rightarrow> case st of (processed, optimized) \<Rightarrow>
        let coordKey = coord_key cx cz in
        if coordKey \<in> set processed then (processed, optimized)
        else
          (case findBestFit coordsSet processed cx cz types of
             Some (t, is_rotated) \<Rightarrow>
               let width = (if is_rotated then type_sizeZ t else type_sizeX t);
                   depth = (if is_rotated then type_sizeX t else type_sizeZ t)
               in (fold (\<lambda>(px, pz) p. set_add (coord_key px pz) p) (rect_cells cx cz width depth) processed,
                   optimized @
                     [\<lparr>brick_id = uuidv4 (length optimized), brick_x = cx, brick_y = py, brick_z = cz,
                       color = pcolor, sizeX = Some width, sizeZ = Some depth,
                       rotation = Some (if is_rotated then 90 else 0), specialType = None,
                       offsetX = None, offsetY = None, offsetZ = None\<rparr>])
           | None \<Rightarrow>
               if coordKey \<notin> set processed then
                 (set_add coordKey processed,
                  optimized @
                    [\<lparr>brick_id = uuidv4 (length optimized), brick_x = cx, brick_y = py, brick_z = cz,
                      color = pcolor, sizeX = Some 1, sizeZ = Some 1,
                      rotation = None, specialType = None,
                      offsetX = None, offsetY = None, offsetZ = None\<rparr>])
               else (processed, optimized)))"

text \<open>
  \<open>const [x, z] = c.split(',').map(Number)\<close>: a missing element would be \<open>undefined\<close>;
  like \<open>NaN\<close> it is read as 0 and never occurs.
\<close>

definition parse_coord :: "string \<Rightarrow> int \<times> int" where
  "parse_coord c =
     (case map Number (js_split CHR '','' c) of
        px # pz # _ \<Rightarrow> (num px, num pz)
      | [px] \<Rightarrow> (num px, 0)
      | [] \<Rightarrow> (0, 0))"

text \<open>
  The comparator of the coordinate sort (\<open>a.z - b.z\<close>, then \<open>a.x - b.x\<close>) is the
  lexicographic order on \<open>(z, x)\<close>.
\<close>

definition sort_coords :: "(int \<times> int) list \<Rightarrow> (int \<times> int) list" where
  "sort_coords cs = sort_key (\<lambda>(cx, cz). (cz, cx)) cs"

text \<open>
  One round of \<open>bricksByLayerColor.forEach\<close>. \<open>const [yStr, color] = key.split(',')\<close>
  takes the first two pieces of the key: a color that itself contains a comma is cut
  at its first comma. A key always has at least two pieces.
\<close>

definition process_group ::
  "(nat \<Rightarrow> string) \<Rightarrow> BrickType list \<Rightarrow> string \<times> string list \<Rightarrow> BrickData list \<Rightarrow> BrickData list" where
  "process_group uuidv4 types entry optimized =
     (case entry of (key, coordsSet) \<Rightarrow>
        (case js_split CHR '','' key of
           yStr # pcolor # _ \<Rightarrow>
             let py = num (parseInt yStr);
                 coords = sort_coords (map parse_coord coordsSet)
             in snd (fold (place_coord uuidv4 types coordsSet py pcolor) coords ([], optimized))
         | _ \<Rightarrow> optimized))"

definition optimizeBricks :: "(nat \<Rightarrow> string) \<Rightarrow> RawBrick list \<Rightarrow> BrickData list" where
  "optimizeBricks uuidv4 rawBricks =
     fold (process_group uuidv4 standardTypes) (bricksByLayerColor rawBricks) []"

section \<open>The application state and its operations (App.tsx)\<close>

datatype ToolMode = VIEW | BUILD | DELETE | MOVE

record lifted_group =
  group_bricks :: "BrickData list"
  anchorId :: string

text \<open>
  The state of the \<open>App\<close> component: the history state and the \<open>useState\<close> cells the
  operations read or write. The animation flag and the build key only drive rendering
  and are left out.
\<close>

record app_state = history_state +
  toolMode :: ToolMode
  selectedColor :: string
  selectedBrickType :: BrickType
  isGenerating :: bool
  rotated :: bool
  liftedGroup :: "lifted_group option"

definition app_init :: app_state where
  "app_init =
     \<lparr>bricks = [], history = [[]], currentHistoryIndex = 0,
      toolMode = VIEW, selectedColor = ''#EF4444'',
      selectedBrickType = \<lparr>label = ''1x1'', type_sizeX = 1, type_sizeZ = 1, type_specialType = None\<rparr>,
      isGenerating = False, rotated = False, liftedGroup = None\<rparr>"

text \<open>\<open>undo\<close> and \<open>redo\<close> of App.tsx also drop the held group when they restore a snapshot.\<close>

definition app_undo :: "'a app_state_scheme \<Rightarrow> 'a app_state_scheme" where
  "app_undo s =
     (if currentHistoryIndex s > 0 then
        (let newIndex = currentHistoryIndex s - 1;
             s1 = s\<lparr>currentHistoryIndex := newIndex\<rparr>
         in if newIndex < length (history s)
            then s1\<lparr>bricks := history s ! newIndex, liftedGroup := None\<rparr> else s1)
      else s)"

definition app_redo :: "'a app_state_scheme \<Rightarrow> 'a app_state_scheme" where
  "app_redo s =
     (if int (currentHistoryIndex s) < int (length (history s)) - 1 then
        (let newIndex = currentHistoryIndex s + 1;
             s1 = s\<lparr>currentHistoryIndex := newIndex\<rparr>
         in if newIndex < length (history s)
            then s1\<lparr>bricks := history s ! newIndex, liftedGroup := None\<rparr> else s1)
      else s)"

text \<open>
  Rotation of a held group. \<open>None\<close> in an offset stands for \<open>undefined\<close> and for \<open>NaN\<close>:
  both are falsy and arithmetic on either gives \<open>NaN\<close>.
\<close>

definition rotate_member :: "BrickData \<Rightarrow> BrickData" where
  "rotate_member b =
     (let newOffsetX = offsetZ b;
          newOffsetZ = (case offsetX b of None \<Rightarrow> None
                        | Some ox \<Rightarrow> Some (- ox - or_num (sizeX b) 1))
      in b\<lparr>offsetX := newOffsetX, offsetZ := newOffsetZ,
           sizeX := sizeZ b, sizeZ := sizeX b,
           rotation := Some (if rotation b = Some 0 then 90 else 0)\<rparr>)"

definition rotateLiftedGroup :: "'a app_state_scheme \<Rightarrow> 'a app_state_scheme" where
  "rotateLiftedGroup s =
     (case liftedGroup s of
        None \<Rightarrow> s\<lparr>rotated := \<not> rotated s\<rparr>
      | Some prev \<Rightarrow>
          s\<lparr>liftedGroup := Some (prev\<lparr>group_bricks := map rotate_member (group_bricks prev)\<rparr>)\<rparr>)"

text \<open>
  \<open>addBrick\<close>; the first argument is the id that \<open>uuidv4()\<close> returns. \<open>addBrick\<close> and the
  handlers below run in response to an event and call the \<open>saveToHistory\<close> of the
  current render.
\<close>

definition addBrick :: "string \<Rightarrow> int \<Rightarrow> int \<Rightarrow> int \<Rightarrow> 'a app_state_scheme \<Rightarrow> 'a app_state_scheme" where
  "addBrick uuid px py pz s =
     (let sx = (if rotated s then type_sizeZ (selectedBrickType s) else type_sizeX (selectedBrickType s));
          sz = (if rotated s then type_sizeX (selectedBrickType s) else type_sizeZ (selectedBrickType s));
          newBrick = \<lparr>brick_id = uuid, brick_x = px, brick_y = py, brick_z = pz,
                      color = selectedColor s, sizeX = Some sx, sizeZ = Some sz,
                      rotation = Some (if rotated s then 90 else 0),
                      specialType = type_specialType (selectedBrickType s),
                      offsetX = None, offsetY = None, offsetZ = None\<rparr>
      in saveToHistory (currentHistoryIndex s) (bricks s @ [newBrick]) s)"

definition handleLiftBrick :: "string \<Rightarrow> 'a app_state_scheme \<Rightarrow> 'a app_state_scheme" where
  "handleLiftBrick brickId s =
     (let liftableIds = getLiftableBricks brickId (bricks s);
          grp = filter (\<lambda>b. brick_id b \<in> set liftableIds) (bricks s)
      in case find (\<lambda>b. brick_id b = brickId) grp of
           None \<Rightarrow> s
         | Some anchorBrick \<Rightarrow>
             (let groupWithOffsets =
                    map (\<lambda>b. b\<lparr>offsetX := Some (brick_x b - brick_x anchorBrick),
                                offsetY := Some (brick_y b - brick_y anchorBrick),
                                offsetZ := Some (brick_z b - brick_z anchorBrick)\<rparr>) grp;
                  remainingBricks = filter (\<lambda>b. brick_id b \<notin> set liftableIds) (bricks s)
              in (saveToHistory (currentHistoryIndex s) remainingBricks s)
                   \<lparr>liftedGroup := Some \<lparr>group_bricks = groupWithOffsets, anchorId = brickId\<rparr>\<rparr>))"

text \<open>The collision test of \<open>handleDropGroup\<close>, for one proposed and one existing brick.\<close>

definition collides :: "BrickData \<Rightarrow> BrickData \<Rightarrow> bool" where
  "collides pb eb =
     (let xOverlap = max (brick_x pb) (brick_x eb)
                       < min (brick_x pb + or_num (sizeX pb) 1) (brick_x eb + or_num (sizeX eb) 1);
          zOverlap = max (brick_z pb) (brick_z eb)
                       < min (brick_z pb + or_num (sizeZ pb) 1) (brick_z eb + or_num (sizeZ eb) 1);
          yOverlap = (brick_y pb = brick_y eb)
      in xOverlap \<and> zOverlap \<and> yOverlap)"

definition proposed_brick :: "int \<Rightarrow> int \<Rightarrow> int \<Rightarrow> BrickData \<Rightarrow> BrickData" where
  "proposed_brick anchorX anchorY anchorZ b =
     b\<lparr>brick_x := anchorX + or_num (offsetX b) 0,
       brick_y := anchorY + or_num (offsetY b) 0,
       brick_z := anchorZ + or_num (offsetZ b) 0,
       offsetX := None, offsetY := None, offsetZ := None\<rparr>"

definition handleDropGroup :: "int \<Rightarrow> int \<Rightarrow> int \<Rightarrow> 'a app_state_scheme \<Rightarrow> 'a app_state_scheme" where
  "handleDropGroup anchorX anchorY anchorZ s =
     (case liftedGroup s of
        None \<Rightarrow> s
      | Some lg \<Rightarrow>
          (let proposedBricks = map (proposed_brick anchorX anchorY anchorZ) (group_bricks lg);
               hasCollision = list_ex (\<lambda>pb. list_ex (\<lambda>eb. collides pb eb) (bricks s)) proposedBricks
           in if \<not> hasCollision
              then (saveToHistory (currentHistoryIndex s) (bricks s @ proposedBricks) s)\<lparr>liftedGroup := None\<rparr>
              else s))"

definition removeBrick :: "string \<Rightarrow> 'a app_state_scheme \<Rightarrow> 'a app_state_scheme" where
  "removeBrick i s = saveToHistory (currentHistoryIndex s) (filter (\<lambda>b. brick_id b \<noteq> i) (bricks s)) s"

definition clearBricks :: "'a app_state_scheme \<Rightarrow> 'a app_state_scheme" where
  "clearBricks s = (saveToHistory (currentHistoryIndex s) [] s)\<lparr>liftedGroup := None\<rparr>"

text \<open>
  \<open>handleGenerate\<close> is asynchronous: it runs up to the \<open>await\<close>, other operations may
  run while the request is pending, and it resumes with the result. The
  \<open>saveToHistory\<close> it then calls is the closure of the render in which the request was
  started: it truncates the history at the index of that render.
\<close>

definition handleGenerate_start :: "'a app_state_scheme \<Rightarrow> 'a app_state_scheme" where
  "handleGenerate_start s = s\<lparr>isGenerating := True, toolMode := VIEW, liftedGroup := None\<rparr>"

definition handleGenerate_result ::
  "nat \<Rightarrow> (nat \<Rightarrow> string) \<Rightarrow> RawBrick list option \<Rightarrow> 'a app_state_scheme \<Rightarrow> 'a app_state_scheme" where
  "handleGenerate_result capturedIndex uuidv4 result s =
     (case result of
        None \<Rightarrow> s\<lparr>isGenerating := False\<rparr>
      | Some resultBricks \<Rightarrow>
          (let rawBricks = map (\<lambda>b. b\<lparr>raw_color := (if raw_color b = [] then ''#EF4444'' else raw_color b)\<rparr>)
                             resultBricks;
               optimizedBricks = sort_key brick_y (optimizeBricks uuidv4 rawBricks)
           in (saveToHistory capturedIndex optimizedBricks s)\<lparr>isGenerating := False\<rparr>))"

section \<open>Pointer handling (components/Scene.tsx)\<close>

text \<open>
  The scene keeps the hover position. A pointer event carries the hit point and, when
  a face was hit, its normal; both are real vectors. \<open>Math.round\<close> rounds half up.
\<close>

record scene_state = app_state +
  hoverPos :: "(int \<times> int \<times> int) option"

record pointer_event =
  point :: "real \<times> real \<times> real"
  face_normal :: "(real \<times> real \<times> real) option"

definition snapToGrid :: "real \<Rightarrow> int" where
  "snapToGrid val = \<lfloor>val + 1 / 2\<rfloor>"

definition out_of_board :: "int \<Rightarrow> int \<Rightarrow> bool" where
  "out_of_board px pz \<longleftrightarrow>
     real_of_int px < - real_of_int MAX_BOARD_SIZE / 2 \<or> real_of_int px > real_of_int MAX_BOARD_SIZE / 2
     \<or> real_of_int pz < - real_of_int MAX_BOARD_SIZE / 2 \<or> real_of_int pz > real_of_int MAX_BOARD_SIZE / 2"

definition handlePointerMove :: "real \<times> real \<times> real \<Rightarrow> int \<Rightarrow> scene_state \<Rightarrow> scene_state" where
  "handlePointerMove p existingY s =
     (case p of (ptx, pty, ptz) \<Rightarrow>
        if toolMode s \<noteq> BUILD \<and> toolMode s \<noteq> MOVE then s\<lparr>hoverPos := None\<rparr>
        else
          (let px = snapToGrid ptx; pz = snapToGrid ptz
           in if out_of_board px pz then s\<lparr>hoverPos := None\<rparr>
              else s\<lparr>hoverPos := Some (px, existingY, pz)\<rparr>))"

definition handleClick :: "string \<Rightarrow> scene_state \<Rightarrow> scene_state" where
  "handleClick uuid s =
     (case hoverPos s of
        None \<Rightarrow> s
      | Some (hx, hy, hz) \<Rightarrow>
          if toolMode s = BUILD then addBrick uuid hx hy hz s
          else if toolMode s = MOVE \<and> liftedGroup s \<noteq> None then handleDropGroup hx hy hz s
          else s)"

definition onBrickClick :: "string \<Rightarrow> pointer_event \<Rightarrow> BrickData \<Rightarrow> scene_state \<Rightarrow> scene_state" where
  "onBrickClick uuid e brick s =
     (case point e of (ptx, pty, ptz) \<Rightarrow>
        if toolMode s = DELETE then removeBrick (brick_id brick) s
        else if toolMode s = MOVE \<and> liftedGroup s = None then handleLiftBrick (brick_id brick) s
        else if toolMode s = BUILD then
          (case face_normal e of
             None \<Rightarrow> s
           | Some (nx, ny, nz) \<Rightarrow>
               (let gridX = snapToGrid ptx; gridY = brick_y brick; gridZ = snapToGrid ptz
                in if ny > 1 / 2
                   then addBrick uuid (snapToGrid ptx) (gridY + 1) (snapToGrid ptz) s
                   else addBrick uuid (gridX + snapToGrid nx) (gridY + snapToGrid ny)
                          (gridZ + snapToGrid nz) s))
        else if toolMode s = MOVE \<and> liftedGroup s \<noteq> None then
          (case face_normal e of
             None \<Rightarrow> s
           | Some (nx, ny, nz) \<Rightarrow>
               (let gridX = snapToGrid ptx; gridY = brick_y brick; gridZ = snapToGrid ptz
                in if ny > 1 / 2
                   then handleDropGroup (snapToGrid ptx) (gridY + 1) (snapToGrid ptz) s
                   else handleDropGroup (gridX + snapToGrid nx) (gridY + snapToGrid ny)
                          (gridZ + snapToGrid nz) s))
        else s)"

definition scene_init :: scene_state where
  "scene_init =
     \<lparr>bricks = [], history = [[]], currentHistoryIndex = 0,
      toolMode = VIEW, selectedColor = ''#EF4444'',
      selectedBrickType = \<lparr>label = ''1x1'', type_sizeX = 1, type_sizeZ = 1, type_specialType = None\<rparr>,
      isGenerating = False, rotated = False, liftedGroup = None, hoverPos = None\<rparr>"

section \<open>Reachable application states\<close>

text \<open>
  The states the application can be in: from the initial state, any of the operations
  of \<open>App\<close> with any arguments, in any order. An id returned by \<open>uuidv4()\<close> is fresh: it
  is carried neither by a brick of the board nor by a held brick; the ids drawn
  during one run of the packer are pairwise distinct. A pending generation request
  may resume with any captured history index.
\<close>

definition held_ids :: "'a app_state_scheme \<Rightarrow> string set" where
  "held_ids s = (case liftedGroup s of None \<Rightarrow> {} | Some g \<Rightarrow> brick_id ` set (group_bricks g))"

inductive reachable :: "app_state \<Rightarrow> bool" where
  r_init: "reachable app_init"
| r_setToolMode: "reachable s \<Longrightarrow> reachable (s\<lparr>toolMode := m\<rparr>)"
| r_setSelectedColor: "reachable s \<Longrightarrow> reachable (s\<lparr>selectedColor := c\<rparr>)"
| r_setSelectedBrickType: "reachable s \<Longrightarrow> t \<in> set BRICK_TYPES \<Longrightarrow> reachable (s\<lparr>selectedBrickType := t\<rparr>)"
| r_addBrick: "reachable s \<Longrightarrow> uuid \<notin> brick_id ` set (bricks s) \<Longrightarrow> uuid \<notin> held_ids s
     \<Longrightarrow> reachable (addBrick uuid px py pz s)"
| r_removeBrick: "reachable s \<Longrightarrow> reachable (removeBrick i s)"
| r_handleLiftBrick: "reachable s \<Longrightarrow> reachable (handleLiftBrick i s)"
| r_handleDropGroup: "reachable s \<Longrightarrow> reachable (handleDropGroup ax ay az s)"
| r_rotateLiftedGroup: "reachable s \<Longrightarrow> reachable (rotateLiftedGroup s)"
| r_undo: "reachable s \<Longrightarrow> reachable (app_undo s)"
| r_redo: "reachable s \<Longrightarrow> reachable (app_redo s)"
| r_clearBricks: "reachable s \<Longrightarrow> reachable (clearBricks s)"
| r_handleGenerate_start: "reachable s \<Longrightarrow> reachable (handleGenerate_start s)"
| r_handleGenerate_result: "reachable s \<Longrightarrow> inj uuidv4 \<Longrightarrow> range uuidv4 \<inter> held_ids s = {}
     \<Longrightarrow> reachable (handleGenerate_result capturedIndex uuidv4 result s)"

section \<open>Auxiliary notions for the statements and proofs\<close>

text \<open>The shape every history state has after at least one commit.\<close>

definition committed :: "'a history_state_scheme \<Rightarrow> bool" where
  "committed s \<longleftrightarrow> history s \<noteq> [] \<and> bricks s = last (history s)
     \<and> length (history s) \<le> currentHistoryIndex s + 1"

text \<open>
  The bricks an upward-support traversal is meant to collect: the start brick, and every
  brick of the board that lies at exactly \<open>y + 1\<close> of a collected brick and overlaps it.
\<close>

inductive upward :: "BrickData list \<Rightarrow> BrickData \<Rightarrow> BrickData \<Rightarrow> bool"
  for allBricks :: "BrickData list" and startBrick :: BrickData where
  upward_start: "upward allBricks startBrick startBrick"
| upward_step: "upward allBricks startBrick c \<Longrightarrow> b \<in> set allBricks
     \<Longrightarrow> brick_y b = brick_y c + 1 \<Longrightarrow> isOverlapping c b
     \<Longrightarrow> upward allBricks startBrick b"

text \<open>
  The grid cells of a voxel and of a brick, each with its layer and its color: a brick
  covers the \<open>sizeX \<times> sizeZ\<close> rectangle of cells that starts at its \<open>(x, z)\<close>.
\<close>

definition raw_cell :: "RawBrick \<Rightarrow> int \<times> int \<times> int \<times> string" where
  "raw_cell v = (raw_x v, raw_y v, raw_z v, raw_color v)"

definition brick_cells :: "BrickData \<Rightarrow> (int \<times> int \<times> int \<times> string) list" where
  "brick_cells b =
     map (\<lambda>(px, pz). (px, brick_y b, pz, color b))
       (rect_cells (brick_x b) (brick_z b) (or_num (sizeX b) 1) (or_num (sizeZ b) 1))"

definition mk_raw :: "int \<Rightarrow> int \<Rightarrow> int \<Rightarrow> string \<Rightarrow> RawBrick" where
  "mk_raw px py pz c = \<lparr>raw_x = px, raw_y = py, raw_z = pz, raw_color = c\<rparr>"

text \<open>
  What every reachable state satisfies: the bricks of the board and of every snapshot
  have unique ids and carry no offsets; the bricks of a held group have unique ids
  that are not on the board, and exactly the brick named by \<open>anchorId\<close> has the vertical
  offset 0, the others lying above it.
\<close>

definition no_offsets :: "BrickData \<Rightarrow> bool" where
  "no_offsets b \<longleftrightarrow> offsetX b = None \<and> offsetY b = None \<and> offsetZ b = None"

definition board_ok :: "BrickData list \<Rightarrow> bool" where
  "board_ok bs \<longleftrightarrow> distinct (map brick_id bs) \<and> (\<forall>b \<in> set bs. no_offsets b)"

definition group_ok :: "BrickData list \<Rightarrow> lifted_group \<Rightarrow> bool" where
  "group_ok bs g \<longleftrightarrow>
     distinct (map brick_id (group_bricks g))
     \<and> brick_id ` set (group_bricks g) \<inter> brick_id ` set bs = {}
     \<and> (\<exists>a \<in> set (group_bricks g). brick_id a = anchorId g)
     \<and> (\<forall>m \<in> set (group_bricks g).
           \<exists>k. offsetY m = Some k \<and> (if brick_id m = anchorId g then k = 0 else 0 < k))"

definition app_inv :: "app_state \<Rightarrow> bool" where
  "app_inv s \<longleftrightarrow>
     board_ok (bricks s) \<and> (\<forall>snap \<in> set (history s). board_ok snap)
     \<and> (case liftedGroup s of None \<Rightarrow> True | Some g \<Rightarrow> group_ok (bricks s) g)"

text \<open>The bricks emitted so far by the packer carry the ids drawn so far, in order.\<close>

definition ids_ok :: "(nat \<Rightarrow> string) \<Rightarrow> BrickData list \<Rightarrow> bool" where
  "ids_ok u out \<longleftrightarrow> map brick_id out = map u [0..<length out] \<and> (\<forall>b \<in> set out. no_offsets b)"

text \<open>Concrete bricks used in the examples.\<close>

definition mk_brick :: "string \<Rightarrow> int \<Rightarrow> int \<Rightarrow> int \<Rightarrow> int \<Rightarrow> int \<Rightarrow> BrickData" where
  "mk_brick i px py pz w d =
     \<lparr>brick_id = i, brick_x = px, brick_y = py, brick_z = pz, color = ''#EF4444'',
      sizeX = Some w, sizeZ = Some d, rotation = Some 0, specialType = None,
      offsetX = None, offsetY = None, offsetZ = None\<rparr>"




text \<open>
  Example states. \<open>ex_held\<close>: two stacked bricks are placed and the upper one is
  lifted. \<open>ex_rotated\<close>: a single brick is placed, lifted and rotated once.
  \<open>ex_overlap\<close>: a 1x1 brick is placed at \<open>(0, 0, 1)\<close>, then the 1x2 template is selected
  and a brick placed at \<open>(0, 0, 0)\<close>, which covers the cell of the first.
\<close>

definition ex_held :: app_state where
  "ex_held = handleLiftBrick ''b'' (addBrick ''b'' 0 1 0 (addBrick ''a'' 0 0 0 app_init))"


definition ex_overlap :: app_state where
  "ex_overlap =
     addBrick ''b'' 0 0 0
       ((addBrick ''a'' 0 0 1 app_init)
          \<lparr>selectedBrickType :=
             \<lparr>label = ''1x2'', type_sizeX = 1, type_sizeZ = 2, type_specialType = None\<rparr>\<rparr>)"

text \<open>The members of a held group whose offset is \<open>(0, 0, 0)\<close>.\<close>

definition zero_offset :: "BrickData \<Rightarrow> bool" where
  "zero_offset b \<longleftrightarrow> offsetX b = Some 0 \<and> offsetY b = Some 0 \<and> offsetZ b = Some 0"

text \<open>
  \<open>ex_edge\<close>: in build mode the pointer hovers the ground cell \<open>(10, 0)\<close>, at the edge
  of the board, and a click places a brick there. \<open>ex_side_click\<close>: a click on the side
  face of that brick that looks along the positive x axis.
\<close>

definition ex_edge :: scene_state where
  "ex_edge = handleClick ''a'' (handlePointerMove (10, 0, 0) 0 (scene_init\<lparr>toolMode := BUILD\<rparr>))"

definition ex_side_click :: pointer_event where
  "ex_side_click = \<lparr>point = (1048 / 100, 3 / 10, 0), face_normal = Some (1, 0, 0)\<rparr>"

text \<open>
  A brick without its id, for comparing the outputs of two runs of the packer, and the
  bricks that the packer emits for one group, without their ids.
\<close>

definition strip_id :: "BrickData \<Rightarrow> BrickData" where
  "strip_id b = b\<lparr>brick_id := []\<rparr>"

definition group_out :: "BrickType list \<Rightarrow> string \<times> string list \<Rightarrow> BrickData list" where
  "group_out types entry = map strip_id (process_group (\<lambda>_. []) types entry [])"

definition ex_uuid :: "nat \<Rightarrow> string" where
  "ex_uuid n = ''id-'' @ nat_to_string n"

text \<open>The coordinate strings that the \<open>Map\<close> of groups holds for a key.\<close>

definition coords_of :: "(string \<times> string list) list \<Rightarrow> string \<Rightarrow> string set" where
  "coords_of m k = (case map_of m k of None \<Rightarrow> {} | Some cs \<Rightarrow> set cs)"

text \<open>
  The cells of a brick in its layer; catalogs whose templates have positive sizes; and
  what holds while one group is packed: the processed coordinate strings are those of
  the cells of the bricks emitted for the group, which are pairwise distinct, belong
  to the group and carry its layer and color.
\<close>

definition cells_xz :: "BrickData \<Rightarrow> (int \<times> int) list" where
  "cells_xz b = rect_cells (brick_x b) (brick_z b) (or_num (sizeX b) 1) (or_num (sizeZ b) 1)"

definition types_ok :: "BrickType list \<Rightarrow> bool" where
  "types_ok ts \<longleftrightarrow> list_all (\<lambda>t. 1 \<le> type_sizeX t \<and> 1 \<le> type_sizeZ t) ts"

definition group_inv :: "(int \<times> int) set \<Rightarrow> int \<Rightarrow> string \<Rightarrow> string list \<Rightarrow> BrickData list \<Rightarrow> bool" where
  "group_inv C py pc p E \<longleftrightarrow>
     set p = (\<lambda>(cx, cz). coord_key cx cz) ` set (concat (map cells_xz E))
     \<and> distinct (concat (map cells_xz E))
     \<and> set (concat (map cells_xz E)) \<subseteq> C
     \<and> list_all (\<lambda>b. brick_y b = py \<and> color b = pc) E"

text \<open>
  \<open>ex_three\<close>: three bricks are placed one after the other. \<open>ex_pending\<close>: a generation
  request is started there, in the render whose history index is 3, and while it is
  pending undo is called three times. \<open>ex_stale\<close>: the request then resolves with one
  voxel, and the resumed handler commits through the closure of the render in which it
  started.
\<close>

definition ex_three :: app_state where
  "ex_three = addBrick ''c'' 2 0 0 (addBrick ''b'' 1 0 0 (addBrick ''a'' 0 0 0 app_init))"

definition ex_pending :: app_state where
  "ex_pending = app_undo (app_undo (app_undo (handleGenerate_start ex_three)))"

definition ex_stale :: app_state where
  "ex_stale = handleGenerate_result 3 ex_uuid (Some [mk_raw 5 0 5 ''#F00'']) ex_pending"

section \<open>History: undo and redo after commits of the current render\<close>

lemma undo_funpow:
  "n \<le> currentHistoryIndex t \<Longrightarrow>
   (undo ^^ n) t =
     t\<lparr>currentHistoryIndex := currentHistoryIndex t - n,
       bricks := (if 0 < n \<and> currentHistoryIndex t - n < length (history t)
                  then history t ! (currentHistoryIndex t - n) else bricks t)\<rparr>"
proof (induction n)
  case 0
  then show ?case by simp
next
  case (Suc n)
  then show ?case
    by (auto simp: undo_def Let_def Suc_diff_Suc)
qed

lemma redo_cond: "int j < int l - 1 \<longleftrightarrow> Suc j < l"
  by auto

lemma redo_step:
  "redo s =
     (if Suc (currentHistoryIndex s) < length (history s)
      then s\<lparr>currentHistoryIndex := Suc (currentHistoryIndex s),
             bricks := history s ! Suc (currentHistoryIndex s)\<rparr>
      else s)"
  by (simp add: redo_def redo_cond Let_def)

lemma redo_funpow:
  "(redo ^^ m) u =
     (if Suc (currentHistoryIndex u) < length (history u) \<and> 0 < m
      then u\<lparr>currentHistoryIndex := min (currentHistoryIndex u + m) (length (history u) - 1),
             bricks := history u ! min (currentHistoryIndex u + m) (length (history u) - 1)\<rparr>
      else u)"
proof (induction m)
  case 0
  then show ?case by simp
next
  case (Suc m)
  have step: "(redo ^^ Suc m) u = redo ((redo ^^ m) u)" by simp
  show ?case
  proof (cases "Suc (currentHistoryIndex u) < length (history u)")
    case False
    then show ?thesis unfolding step Suc by (simp add: redo_step)
  next
    case True
    show ?thesis
    proof (cases "m = 0")
      case True
      with \<open>Suc (currentHistoryIndex u) < length (history u)\<close> show ?thesis
        unfolding step Suc by (simp add: redo_step min_def)
    next
      case False
      show ?thesis
      proof (cases "Suc (currentHistoryIndex u + m) < length (history u)")
        case True
        then have "min (currentHistoryIndex u + m) (length (history u) - 1) = currentHistoryIndex u + m"
          and "min (currentHistoryIndex u + Suc m) (length (history u) - 1) = Suc (currentHistoryIndex u + m)"
          by auto
        with True \<open>Suc (currentHistoryIndex u) < length (history u)\<close> \<open>m \<noteq> 0\<close> show ?thesis
          unfolding step Suc by (simp add: redo_step)
      next
        case False
        then have "min (currentHistoryIndex u + m) (length (history u) - 1) = length (history u) - 1"
          and "min (currentHistoryIndex u + Suc m) (length (history u) - 1) = length (history u) - 1"
          by auto
        with False \<open>Suc (currentHistoryIndex u) < length (history u)\<close> \<open>m \<noteq> 0\<close> show ?thesis
          unfolding step Suc by (simp add: redo_step)
      qed
    qed
  qed
qed

lemma committed_saveToHistory: "committed (saveToHistory (currentHistoryIndex s) c s)"
  by (simp add: committed_def saveToHistory_def)

lemma fold_saveToHistory_index:
  "currentHistoryIndex (fold (\<lambda>c s. saveToHistory (currentHistoryIndex s) c s) cs s)
     = currentHistoryIndex s + length cs"
  by (induction cs arbitrary: s) (simp_all add: saveToHistory_def)

lemma fold_saveToHistory_committed:
  "cs \<noteq> [] \<Longrightarrow> committed (fold (\<lambda>c s. saveToHistory (currentHistoryIndex s) c s) cs s)"
proof (induction cs arbitrary: s)
  case Nil
  then show ?case by simp
next
  case (Cons c cs)
  show ?case
  proof (cases "cs = []")
    case True
    then show ?thesis by (simp add: committed_saveToHistory)
  next
    case False
    then show ?thesis using Cons.IH by simp
  qed
qed

lemma undo_redo_committed:
  assumes c: "committed t" and n: "n \<le> currentHistoryIndex t"
  shows "bricks ((redo ^^ n) ((undo ^^ n) t)) = bricks t"
proof (cases "n = 0")
  case True
  then show ?thesis by simp
next
  case False
  let ?I = "currentHistoryIndex t" and ?L = "length (history t)"
  from c have L: "?L \<noteq> 0" "?L \<le> ?I + 1" and b: "bricks t = history t ! (?L - 1)"
    by (simp_all add: committed_def last_conv_nth)
  show ?thesis
  proof (cases "Suc (?I - n) < ?L")
    case True
    with n L have "min (?I - n + n) (?L - 1) = ?L - 1" by auto
    with True False n b show ?thesis
      by (simp add: undo_funpow redo_funpow)
  next
    case nr: False
    show ?thesis
    proof (cases "?I - n < ?L")
      case True
      with nr have "?I - n = ?L - 1" by auto
      with nr True False n b show ?thesis
        by (simp add: undo_funpow redo_funpow)
    next
      case False
      with nr \<open>n \<noteq> 0\<close> n show ?thesis
        by (simp add: undo_funpow redo_funpow)
    qed
  qed
qed

text \<open>
  Commits made through the closure of the current render. From any history state, after
  any sequence \<open>cs\<close> of such commits, undoing \<open>n\<close> times and then redoing \<open>n\<close> times, with
  \<open>n\<close> at most the number of commits, leaves the live board as it was right after the
  commits.
\<close>

lemma fresh_commits_round_trip:
  "n \<le> length cs \<Longrightarrow>
   bricks ((redo ^^ n) ((undo ^^ n) (fold (\<lambda>c s. saveToHistory (currentHistoryIndex s) c s) cs s)))
     = bricks (fold (\<lambda>c s. saveToHistory (currentHistoryIndex s) c s) cs s)"
proof (cases "cs = []")
  case True
  assume "n \<le> length cs"
  with True show ?thesis by simp
next
  case False
  assume "n \<le> length cs"
  then have "n \<le> currentHistoryIndex (fold (\<lambda>c s. saveToHistory (currentHistoryIndex s) c s) cs s)"
    by (simp add: fold_saveToHistory_index)
  with fold_saveToHistory_committed [OF False] show ?thesis
    by (rule undo_redo_committed)
qed

text \<open>
  A commit made through the closure of the current render keeps the entries at positions
  0 up to the current index and appends the snapshot; any number of redo calls after it
  changes nothing. A commit made through the closure of another render keeps the
  entries up to that render's index instead.
\<close>

lemma redo_after_fresh_commit:
  "redo (saveToHistory (currentHistoryIndex t) b t) = saveToHistory (currentHistoryIndex t) b t"
  by (simp add: redo_step saveToHistory_def)

lemma redo_funpow_after_fresh_commit:
  "(redo ^^ m) (saveToHistory (currentHistoryIndex t) b t) = saveToHistory (currentHistoryIndex t) b t"
  by (induction m) (simp_all add: redo_after_fresh_commit)

lemma saveToHistory_effect:
  "history (saveToHistory k b s) = take (k + 1) (history s) @ [b]"
  "currentHistoryIndex (saveToHistory k b s) = currentHistoryIndex s + 1"
  "bricks (saveToHistory k b s) = b"
  by (simp_all add: saveToHistory_def)

text \<open>
  The \<open>undo\<close> and \<open>redo\<close> of App.tsx act on the board, the history and the index as those
  of the hook do.
\<close>

lemma app_undo_as_undo:
  "bricks (app_undo s) = bricks (undo s)" "history (app_undo s) = history (undo s)"
  "currentHistoryIndex (app_undo s) = currentHistoryIndex (undo s)"
  by (simp_all add: app_undo_def undo_def Let_def)

lemma app_redo_as_redo:
  "bricks (app_redo s) = bricks (redo s)" "history (app_redo s) = history (redo s)"
  "currentHistoryIndex (app_redo s) = currentHistoryIndex (redo s)"
  by (simp_all add: app_redo_def redo_def Let_def)

section \<open>The upward-support traversal collects the bricks resting on the start brick\<close>

lemma upward_in_board:
  "upward allBricks sb b \<Longrightarrow> sb \<in> set allBricks \<Longrightarrow> b \<in> set allBricks"
  by (induction rule: upward.induct) auto

lemma upward_above:
  "upward allBricks sb b \<Longrightarrow> b = sb \<or> brick_y sb < brick_y b"
  by (induction rule: upward.induct) auto

lemma distinct_ids_eq:
  "distinct (map brick_id bs) \<Longrightarrow> a \<in> set bs \<Longrightarrow> b \<in> set bs \<Longrightarrow> brick_id a = brick_id b \<Longrightarrow> a = b"
  by (meson distinct_map inj_onD)

lemma set_supported_by:
  "set (supported_by allBricks r c) =
     {b \<in> set allBricks. brick_id b \<notin> set r \<and> brick_y b = brick_y c + 1 \<and> isOverlapping c b}"
  by (auto simp: supported_by_def)


lemma liftable_loop_correct:
  assumes "distinct (map brick_id allBricks)" and "sb \<in> set allBricks"
    and "\<forall>q \<in> set queue. upward allBricks sb q"
    and "brick_id ` set queue \<subseteq> set r"
    and "\<forall>i \<in> set r. \<exists>b. upward allBricks sb b \<and> brick_id b = i"
    and "brick_id sb \<in> set r"
    and "\<forall>c \<in> set allBricks. brick_id c \<in> set r \<longrightarrow> c \<notin> set queue \<longrightarrow>
           (\<forall>b \<in> set allBricks. brick_y b = brick_y c + 1 \<longrightarrow> isOverlapping c b \<longrightarrow> brick_id b \<in> set r)"
  shows "set (liftable_loop allBricks queue r) = brick_id ` {b. upward allBricks sb b}"
  using assms
proof (induction allBricks queue r rule: liftable_loop.induct)
  case (1 allBricks resultIds)
  have "brick_id b \<in> set resultIds" if "upward allBricks sb b" for b
    using that
  proof (induction rule: upward.induct)
    case upward_start
    show ?case by (rule "1.prems"(6))
  next
    case (upward_step c b)
    moreover from upward_step have "c \<in> set allBricks"
      using upward_in_board "1.prems"(2) by blast
    ultimately show ?case using "1.prems"(7) by fastforce
  qed
  moreover have "i \<in> brick_id ` {b. upward allBricks sb b}" if "i \<in> set resultIds" for i
    using that "1.prems"(5) by force
  ultimately show ?case unfolding liftable_loop.simps by blast
next
  case (2 allBricks current queue resultIds)
  define supported where "supported = supported_by allBricks resultIds current"
  define r' where "r' = fold (\<lambda>b r. set_add (brick_id b) r) supported resultIds"
  have r': "set r' = set resultIds \<union> brick_id ` set supported"
    by (simp add: r'_def set_fold_set_add)
  have sup: "set supported = {b \<in> set allBricks. brick_id b \<notin> set resultIds
                \<and> brick_y b = brick_y current + 1 \<and> isOverlapping current b}"
    by (simp add: supported_def set_supported_by)
  have cur: "upward allBricks sb current" using "2.prems"(3) by simp
  have up_sup: "upward allBricks sb b" if "b \<in> set supported" for b
  proof -
    from that sup have "b \<in> set allBricks" "brick_y b = brick_y current + 1" "isOverlapping current b"
      by simp_all
    with cur show ?thesis by (rule upward_step)
  qed
  have "set (liftable_loop allBricks (queue @ supported) r') = brick_id ` {b. upward allBricks sb b}"
  proof (rule "2.IH" [OF supported_def, folded supported_def r'_def])
    show "distinct (map brick_id allBricks)" by fact
    show "sb \<in> set allBricks" by fact
    show "\<forall>q\<in>set (queue @ supported). upward allBricks sb q"
      using "2.prems"(3) up_sup by auto
    show "brick_id ` set (queue @ supported) \<subseteq> set r'"
      using "2.prems"(4) r' by auto
    show "\<forall>i\<in>set r'. \<exists>b. upward allBricks sb b \<and> brick_id b = i"
      using "2.prems"(5) r' up_sup by auto
    show "brick_id sb \<in> set r'" using "2.prems"(6) r' by simp
    show "\<forall>c\<in>set allBricks. brick_id c \<in> set r' \<longrightarrow> c \<notin> set (queue @ supported) \<longrightarrow>
           (\<forall>b\<in>set allBricks. brick_y b = brick_y c + 1 \<longrightarrow> isOverlapping c b \<longrightarrow> brick_id b \<in> set r')"
    proof (intro ballI impI)
      fix c b
      assume c: "c \<in> set allBricks" "brick_id c \<in> set r'" "c \<notin> set (queue @ supported)"
        and b: "b \<in> set allBricks" "brick_y b = brick_y c + 1" "isOverlapping c b"
      have cr: "brick_id c \<in> set resultIds"
      proof (rule ccontr)
        assume "brick_id c \<notin> set resultIds"
        with c(2) r' obtain d where d: "d \<in> set supported" "brick_id d = brick_id c" by auto
        with sup have "d \<in> set allBricks" by simp
        with d(2) c(1) "2.prems"(1) have "d = c" by (rule_tac distinct_ids_eq)
        with d c(3) show False by simp
      qed
      show "brick_id b \<in> set r'"
      proof (cases "c = current")
        case True
        with b sup r' show ?thesis by auto
      next
        case False
        with c(3) have "c \<notin> set (current # queue)" by simp
        with "2.prems"(7) c(1) cr b have "brick_id b \<in> set resultIds" by blast
        with r' show ?thesis by simp
      qed
    qed
  qed
  then show ?case
    by (simp add: supported_def r'_def Let_def)
qed

lemma find_id_Some:
  "find (\<lambda>b. brick_id b = i) bs = Some sb \<Longrightarrow> sb \<in> set bs \<and> brick_id sb = i"
  by (auto simp: find_Some_iff)

lemma getLiftableBricks_set:
  assumes "distinct (map brick_id allBricks)"
    and "find (\<lambda>b. brick_id b = sid) allBricks = Some sb"
  shows "set (getLiftableBricks sid allBricks) = brick_id ` {b. upward allBricks sb b}"
proof -
  from assms(2) have sb: "sb \<in> set allBricks" "brick_id sb = sid"
    by (blast dest: find_id_Some)+
  have "set (liftable_loop allBricks [sb] [sid]) = brick_id ` {b. upward allBricks sb b}"
  proof (rule liftable_loop_correct [OF assms(1) sb(1)])
    show "\<forall>q\<in>set [sb]. upward allBricks sb q" by (simp add: upward_start)
    show "brick_id ` set [sb] \<subseteq> set [sid]" using sb by simp
    show "\<forall>i\<in>set [sid]. \<exists>b. upward allBricks sb b \<and> brick_id b = i"
      using sb upward_start by auto
    show "brick_id sb \<in> set [sid]" using sb by simp
    show "\<forall>c\<in>set allBricks. brick_id c \<in> set [sid] \<longrightarrow> c \<notin> set [sb] \<longrightarrow>
           (\<forall>b\<in>set allBricks. brick_y b = brick_y c + 1 \<longrightarrow> isOverlapping c b
              \<longrightarrow> brick_id b \<in> set [sid])"
    proof (intro ballI impI)
      fix c b
      assume "c \<in> set allBricks" "brick_id c \<in> set [sid]" "c \<notin> set [sb]"
      with sb have "c \<in> set allBricks" "brick_id c = brick_id sb" "c \<noteq> sb" by simp_all
      with distinct_ids_eq [OF assms(1) _ sb(1)] have False by blast
      then show "brick_id b \<in> set [sid]" ..
    qed
  qed
  then show ?thesis unfolding getLiftableBricks_def assms(2) by (simp only: option.case)
qed

lemma getLiftableBricks_member:
  assumes "distinct (map brick_id allBricks)"
    and "find (\<lambda>b. brick_id b = sid) allBricks = Some sb"
    and "b \<in> set allBricks"
  shows "brick_id b \<in> set (getLiftableBricks sid allBricks) \<longleftrightarrow> upward allBricks sb b"
proof
  assume "brick_id b \<in> set (getLiftableBricks sid allBricks)"
  then obtain b' where b': "upward allBricks sb b'" "brick_id b' = brick_id b"
    unfolding getLiftableBricks_set [OF assms(1,2)] by force
  from assms(2) have "sb \<in> set allBricks" by (blast dest: find_id_Some)
  with b'(1) have "b' \<in> set allBricks" by (rule upward_in_board)
  with assms(1) have "b' = b" using assms(3) b'(2) by (rule distinct_ids_eq)
  with b'(1) show "upward allBricks sb b" by simp
next
  assume "upward allBricks sb b"
  then show "brick_id b \<in> set (getLiftableBricks sid allBricks)"
    unfolding getLiftableBricks_set [OF assms(1,2)] by blast
qed




section \<open>The packer on concrete inputs\<close>

text \<open>
  Claim C10. On the two voxels \<open>(0,0,0,"#F00")\<close> and \<open>(1,0,0,"#F00")\<close>, in either
  order, and with the shipped catalog, which has a 1x2 template, the packer emits one
  brick at \<open>(0, 0, 0)\<close> of color \<open>"#F00"\<close> with \<open>sizeX = 2\<close> and \<open>sizeZ = 1\<close> (the 1x2
  template rotated), which covers both cells.
\<close>

theorem optimizeBricks_two_voxels:
  "optimizeBricks uuidv4 [mk_raw 0 0 0 ''#F00'', mk_raw 1 0 0 ''#F00''] =
     [\<lparr>brick_id = uuidv4 0, brick_x = 0, brick_y = 0, brick_z = 0, color = ''#F00'',
       sizeX = Some 2, sizeZ = Some 1, rotation = Some 90, specialType = None,
       offsetX = None, offsetY = None, offsetZ = None\<rparr>]
   \<and> optimizeBricks uuidv4 [mk_raw 1 0 0 ''#F00'', mk_raw 0 0 0 ''#F00''] =
     optimizeBricks uuidv4 [mk_raw 0 0 0 ''#F00'', mk_raw 1 0 0 ''#F00'']
   \<and> concat (map brick_cells (optimizeBricks uuidv4 [mk_raw 0 0 0 ''#F00'', mk_raw 1 0 0 ''#F00'']))
       = [(0, 0, 0, ''#F00''), (1, 0, 0, ''#F00'')]
   \<and> \<lparr>label = ''1x2'', type_sizeX = 1, type_sizeZ = 2, type_specialType = None\<rparr> \<in> set BRICK_TYPES"
  by code_simp

text \<open>
  Claim C1, at an input where the code departs from it. The color of a voxel may contain
  a comma (\<open>rgb(255,0,0)\<close>); the group key is split at every comma, so the brick emitted
  for the voxel carries the color \<open>rgb(255\<close>, and the cell it covers is not the cell of
  the input voxel.
\<close>

theorem optimizeBricks_comma_color:
  "concat (map brick_cells (optimizeBricks uuidv4 [mk_raw 0 0 0 ''rgb(255,0,0)'']))
     = [(0, 0, 0, ''rgb(255'')]
   \<and> map raw_cell [mk_raw 0 0 0 ''rgb(255,0,0)''] = [(0, 0, 0, ''rgb(255,0,0)'')]
   \<and> set (concat (map brick_cells (optimizeBricks uuidv4 [mk_raw 0 0 0 ''rgb(255,0,0)''])))
       \<noteq> set (map raw_cell [mk_raw 0 0 0 ''rgb(255,0,0)''])"
  by code_simp

section \<open>Invariants of the reachable states\<close>

subsection \<open>The ids of the bricks the packer emits\<close>

lemma ids_ok_snoc:
  "ids_ok u out \<Longrightarrow> brick_id b = u (length out) \<Longrightarrow> no_offsets b \<Longrightarrow> ids_ok u (out @ [b])"
  by (simp add: ids_ok_def)

lemma place_coord_ids_ok:
  "ids_ok u (snd st) \<Longrightarrow> ids_ok u (snd (place_coord u types cs py pc c st))"
  by (cases st; cases c)
     (auto simp: place_coord_def Let_def no_offsets_def intro!: ids_ok_snoc split: option.splits)

lemma fold_place_coord_ids_ok:
  "ids_ok u (snd st) \<Longrightarrow> ids_ok u (snd (fold (place_coord u types cs py pc) coords st))"
  by (induction coords arbitrary: st) (simp_all add: place_coord_ids_ok)

lemma process_group_ids_ok:
  "ids_ok u out \<Longrightarrow> ids_ok u (process_group u types e out)"
  by (cases e) (auto simp: process_group_def Let_def fold_place_coord_ids_ok split: list.splits)

lemma fold_process_group_ids_ok:
  "ids_ok u out \<Longrightarrow> ids_ok u (fold (process_group u types) m out)"
  by (induction m arbitrary: out) (simp_all add: process_group_ids_ok)

lemma optimizeBricks_ids_ok: "ids_ok u (optimizeBricks u raw)"
  unfolding optimizeBricks_def by (rule fold_process_group_ids_ok) (simp add: ids_ok_def)

lemma optimizeBricks_board_ok:
  assumes "inj u"
  shows "board_ok (sort_key brick_y (optimizeBricks u raw))"
proof -
  let ?out = "optimizeBricks u raw"
  have ok: "ids_ok u ?out" by (rule optimizeBricks_ids_ok)
  then have "distinct (map brick_id ?out)"
    using assms by (simp add: ids_ok_def distinct_map inj_on_def inj_def)
  moreover have "mset (map brick_id (sort_key brick_y ?out)) = mset (map brick_id ?out)"
    by simp
  ultimately have "distinct (map brick_id (sort_key brick_y ?out))"
    by (metis mset_eq_imp_distinct_iff)
  with ok show ?thesis by (simp add: board_ok_def ids_ok_def)
qed

lemma optimizeBricks_ids_range:
  "brick_id ` set (sort_key brick_y (optimizeBricks u raw)) \<subseteq> range u"
proof -
  have "set (map brick_id (optimizeBricks u raw)) \<subseteq> range u"
    using optimizeBricks_ids_ok [of u raw] unfolding ids_ok_def by (metis image_set image_mono subset_UNIV)
  then show ?thesis by simp
qed

subsection \<open>Every operation keeps the invariant\<close>

lemma board_ok_filter: "board_ok bs \<Longrightarrow> board_ok (filter P bs)"
  by (simp add: board_ok_def distinct_map_filter)

lemma board_ok_Nil: "board_ok []"
  by (simp add: board_ok_def)

lemma history_ok_take_snoc:
  "\<forall>snap \<in> set h. board_ok snap \<Longrightarrow> board_ok nb \<Longrightarrow> \<forall>snap \<in> set (take n h @ [nb]). board_ok snap"
  by (auto dest: in_set_takeD)

lemma group_ok_board:
  "group_ok bs g \<Longrightarrow> brick_id ` set (group_bricks g) \<inter> brick_id ` set bs' = {} \<Longrightarrow> group_ok bs' g"
  by (simp add: group_ok_def)

lemma group_ok_subset:
  assumes "group_ok bs g" and "set bs' \<subseteq> set bs"
  shows "group_ok bs' g"
proof (rule group_ok_board [OF assms(1)])
  from assms(1) have "brick_id ` set (group_bricks g) \<inter> brick_id ` set bs = {}"
    by (simp add: group_ok_def)
  with assms(2) show "brick_id ` set (group_bricks g) \<inter> brick_id ` set bs' = {}" by blast
qed

lemma app_inv_intro:
  "board_ok (bricks s) \<Longrightarrow> \<forall>snap \<in> set (history s). board_ok snap
   \<Longrightarrow> (\<And>g. liftedGroup s = Some g \<Longrightarrow> group_ok (bricks s) g) \<Longrightarrow> app_inv s"
  by (simp add: app_inv_def split: option.splits)

lemma app_inv_board: "app_inv s \<Longrightarrow> board_ok (bricks s)"
  by (simp add: app_inv_def)

lemma app_inv_history: "app_inv s \<Longrightarrow> snap \<in> set (history s) \<Longrightarrow> board_ok snap"
  by (simp add: app_inv_def)

lemma app_inv_group: "app_inv s \<Longrightarrow> liftedGroup s = Some g \<Longrightarrow> group_ok (bricks s) g"
  by (simp add: app_inv_def)

lemma app_inv_commit:
  assumes "app_inv s" and "board_ok nb"
    and "\<And>g. lg = Some g \<Longrightarrow> group_ok nb g"
  shows "app_inv ((saveToHistory k nb s)\<lparr>liftedGroup := lg\<rparr>)"
proof (rule app_inv_intro)
  show "board_ok (bricks ((saveToHistory k nb s)\<lparr>liftedGroup := lg\<rparr>))"
    using assms(2) by (simp add: saveToHistory_def)
  show "\<forall>snap\<in>set (history ((saveToHistory k nb s)\<lparr>liftedGroup := lg\<rparr>)). board_ok snap"
    using history_ok_take_snoc [of "history s" nb] assms(1,2)
    by (simp add: saveToHistory_def app_inv_def)
  show "group_ok (bricks ((saveToHistory k nb s)\<lparr>liftedGroup := lg\<rparr>)) g"
    if "liftedGroup ((saveToHistory k nb s)\<lparr>liftedGroup := lg\<rparr>) = Some g" for g
    using that assms(3) by (simp add: saveToHistory_def)
qed

lemma app_inv_commit_keep:
  assumes "app_inv s" and "board_ok nb"
    and "\<And>g. liftedGroup s = Some g \<Longrightarrow> group_ok nb g"
  shows "app_inv (saveToHistory k nb s)"
proof -
  have "saveToHistory k nb s = (saveToHistory k nb s)\<lparr>liftedGroup := liftedGroup s\<rparr>"
    by (simp add: saveToHistory_def)
  moreover have "app_inv ((saveToHistory k nb s)\<lparr>liftedGroup := liftedGroup s\<rparr>)"
    using assms by (rule app_inv_commit)
  ultimately show ?thesis by simp
qed

lemma app_inv_init: "app_inv app_init"
  by (simp add: app_inv_def app_init_def board_ok_def)

lemma app_inv_addBrick:
  assumes "app_inv s" and "uuid \<notin> brick_id ` set (bricks s)" and "uuid \<notin> held_ids s"
  shows "app_inv (addBrick uuid px py pz s)"
proof -
  define nb where "nb = \<lparr>brick_id = uuid, brick_x = px, brick_y = py, brick_z = pz,
      color = selectedColor s,
      sizeX = Some (if rotated s then type_sizeZ (selectedBrickType s) else type_sizeX (selectedBrickType s)),
      sizeZ = Some (if rotated s then type_sizeX (selectedBrickType s) else type_sizeZ (selectedBrickType s)),
      rotation = Some (if rotated s then 90 else 0),
      specialType = type_specialType (selectedBrickType s),
      offsetX = None, offsetY = None, offsetZ = None\<rparr>"
  have eq: "addBrick uuid px py pz s = saveToHistory (currentHistoryIndex s) (bricks s @ [nb]) s"
    by (simp add: addBrick_def nb_def Let_def)
  have nb: "brick_id nb = uuid" "no_offsets nb" by (simp_all add: nb_def no_offsets_def)
  show ?thesis unfolding eq
  proof (rule app_inv_commit_keep [OF assms(1)])
    show "board_ok (bricks s @ [nb])"
      using app_inv_board [OF assms(1)] assms(2) nb by (auto simp: board_ok_def)
    fix g assume g: "liftedGroup s = Some g"
    with assms(3) have "uuid \<notin> brick_id ` set (group_bricks g)" by (simp add: held_ids_def)
    moreover from app_inv_group [OF assms(1) g]
    have "brick_id ` set (group_bricks g) \<inter> brick_id ` set (bricks s) = {}" by (simp add: group_ok_def)
    ultimately have "brick_id ` set (group_bricks g) \<inter> brick_id ` set (bricks s @ [nb]) = {}"
      using nb(1) by auto
    with app_inv_group [OF assms(1) g] show "group_ok (bricks s @ [nb]) g" by (rule group_ok_board)
  qed
qed

lemma app_inv_removeBrick:
  assumes "app_inv s"
  shows "app_inv (removeBrick i s)"
  unfolding removeBrick_def
proof (rule app_inv_commit_keep [OF assms])
  show "board_ok (filter (\<lambda>b. brick_id b \<noteq> i) (bricks s))"
    using app_inv_board [OF assms] by (rule board_ok_filter)
  fix g assume "liftedGroup s = Some g"
  with assms have "group_ok (bricks s) g" by (rule app_inv_group)
  then show "group_ok (filter (\<lambda>b. brick_id b \<noteq> i) (bricks s)) g"
    by (rule group_ok_subset) simp
qed

lemma app_inv_clearBricks: "app_inv s \<Longrightarrow> app_inv (clearBricks s)"
  unfolding clearBricks_def by (rule app_inv_commit) (simp_all add: board_ok_Nil)

lemma app_inv_handleGenerate_start: "app_inv s \<Longrightarrow> app_inv (handleGenerate_start s)"
  by (simp add: app_inv_def handleGenerate_start_def)

lemma app_undo_step:
  "app_undo s =
     (if 0 < currentHistoryIndex s then
        if currentHistoryIndex s - 1 < length (history s)
        then s\<lparr>currentHistoryIndex := currentHistoryIndex s - 1,
               bricks := history s ! (currentHistoryIndex s - 1), liftedGroup := None\<rparr>
        else s\<lparr>currentHistoryIndex := currentHistoryIndex s - 1\<rparr>
      else s)"
  by (simp add: app_undo_def Let_def)

lemma app_redo_step:
  "app_redo s =
     (if Suc (currentHistoryIndex s) < length (history s)
      then s\<lparr>currentHistoryIndex := Suc (currentHistoryIndex s),
             bricks := history s ! Suc (currentHistoryIndex s), liftedGroup := None\<rparr>
      else s)"
  by (simp add: app_redo_def redo_cond Let_def)

lemma app_inv_undo: "app_inv s \<Longrightarrow> app_inv (app_undo s)"
  unfolding app_undo_step by (auto simp: app_inv_def split: option.splits)

lemma app_inv_redo: "app_inv s \<Longrightarrow> app_inv (app_redo s)"
  unfolding app_redo_step by (auto simp: app_inv_def split: option.splits)

lemma app_inv_rotate:
  assumes "app_inv s"
  shows "app_inv (rotateLiftedGroup s)"
proof (cases "liftedGroup s")
  case None
  with assms show ?thesis by (simp add: rotateLiftedGroup_def app_inv_def)
next
  case (Some g)
  have id: "brick_id (rotate_member b) = brick_id b" and oy: "offsetY (rotate_member b) = offsetY b" for b
    by (simp_all add: rotate_member_def Let_def)
  from assms Some have "group_ok (bricks s) g" by (rule app_inv_group)
  then have "group_ok (bricks s) (g\<lparr>group_bricks := map rotate_member (group_bricks g)\<rparr>)"
    by (simp add: group_ok_def id oy o_def image_image)
  with assms Some show ?thesis
    by (simp add: rotateLiftedGroup_def app_inv_def)
qed


lemma proposed_brick_simps:
  "brick_id (proposed_brick ax ay az b) = brick_id b" "no_offsets (proposed_brick ax ay az b)"
  by (simp_all add: proposed_brick_def no_offsets_def)

lemma app_inv_drop:
  assumes "app_inv s"
  shows "app_inv (handleDropGroup ax ay az s)"
proof (cases "liftedGroup s")
  case None
  with assms show ?thesis by (simp add: handleDropGroup_def)
next
  case (Some lg)
  let ?proposed = "map (proposed_brick ax ay az) (group_bricks lg)"
  show ?thesis
  proof (cases "list_ex (\<lambda>pb. list_ex (\<lambda>eb. collides pb eb) (bricks s)) ?proposed")
    case True
    with Some assms show ?thesis by (simp add: handleDropGroup_def)
  next
    case False
    from assms Some have g: "group_ok (bricks s) lg" by (rule app_inv_group)
    have ids: "map brick_id ?proposed = map brick_id (group_bricks lg)"
      by (simp add: proposed_brick_simps o_def)
    have "distinct (map brick_id (bricks s @ ?proposed))"
      using g app_inv_board [OF assms] unfolding map_append ids
      by (auto simp: group_ok_def board_ok_def)
    then have "board_ok (bricks s @ ?proposed)"
      using app_inv_board [OF assms] by (auto simp: board_ok_def proposed_brick_simps)
    then have "app_inv ((saveToHistory (currentHistoryIndex s) (bricks s @ ?proposed) s)\<lparr>liftedGroup := None\<rparr>)"
      by (intro app_inv_commit [OF assms]) simp_all
    with Some False show ?thesis by (simp add: handleDropGroup_def)
  qed
qed

lemma find_distinct_id:
  "distinct (map brick_id bs) \<Longrightarrow> a \<in> set bs \<Longrightarrow> find (\<lambda>b. brick_id b = brick_id a) bs = Some a"
  by (induction bs) (auto simp: image_iff)

lemma app_inv_lift:
  assumes "app_inv s"
  shows "app_inv (handleLiftBrick i s)"
proof -
  define ids where "ids = getLiftableBricks i (bricks s)"
  define grp where "grp = filter (\<lambda>b. brick_id b \<in> set ids) (bricks s)"
  define rest where "rest = filter (\<lambda>b. brick_id b \<notin> set ids) (bricks s)"
  show ?thesis
  proof (cases "find (\<lambda>b. brick_id b = i) grp")
    case None
    with assms show ?thesis by (simp add: handleLiftBrick_def Let_def ids_def grp_def)
  next
    case (Some anchor)
    define addoff where "addoff = (\<lambda>b::BrickData. b\<lparr>offsetX := Some (brick_x b - brick_x anchor),
                                offsetY := Some (brick_y b - brick_y anchor),
                                offsetZ := Some (brick_z b - brick_z anchor)\<rparr>)"
    define g where "g = \<lparr>group_bricks = map addoff grp, anchorId = i\<rparr>"
    have eq: "handleLiftBrick i s = (saveToHistory (currentHistoryIndex s) rest s)\<lparr>liftedGroup := Some g\<rparr>"
      using Some by (simp add: handleLiftBrick_def Let_def ids_def [symmetric] grp_def [symmetric]
          rest_def [symmetric] addoff_def g_def)
    from assms have bd: "distinct (map brick_id (bricks s))"
      by (simp add: app_inv_def board_ok_def)
    from Some have anchor: "anchor \<in> set grp" "brick_id anchor = i"
      by (blast dest: find_id_Some)+
    then have anchor_b: "anchor \<in> set (bricks s)" by (simp add: grp_def)
    with bd anchor(2) have fnd: "find (\<lambda>b. brick_id b = i) (bricks s) = Some anchor"
      using find_distinct_id by blast
    have idm: "map brick_id (map addoff grp) = map brick_id grp"
      by (simp add: addoff_def o_def)
    have gok: "group_ok rest g"
      unfolding group_ok_def
    proof (intro conjI ballI)
      have "distinct (map brick_id grp)"
        using bd by (simp add: grp_def distinct_map_filter)
      then show "distinct (map brick_id (group_bricks g))"
        unfolding g_def lifted_group.simps idm .
      have "set (map brick_id (group_bricks g)) \<inter> set (map brick_id rest) = {}"
        unfolding g_def lifted_group.simps idm by (auto simp: grp_def rest_def)
      then show "brick_id ` set (group_bricks g) \<inter> brick_id ` set rest = {}" by simp
      have "addoff anchor \<in> set (group_bricks g)" using anchor(1) by (simp add: g_def)
      moreover have "brick_id (addoff anchor) = anchorId g" using anchor(2) by (simp add: g_def addoff_def)
      ultimately show "\<exists>a\<in>set (group_bricks g). brick_id a = anchorId g" by blast
    next
      fix m assume "m \<in> set (group_bricks g)"
      then obtain b where b: "b \<in> set grp" "m = addoff b" by (auto simp: g_def)
      then have bb: "b \<in> set (bricks s)" "brick_id b \<in> set (getLiftableBricks i (bricks s))"
        by (simp_all add: grp_def ids_def)
      with bd fnd have up: "upward (bricks s) anchor b"
        by (simp add: getLiftableBricks_member)
      have my: "offsetY m = Some (brick_y b - brick_y anchor)" and mid: "brick_id m = brick_id b"
        by (simp_all add: b(2) addoff_def)
      show "\<exists>k. offsetY m = Some k \<and> (if brick_id m = anchorId g then k = 0 else 0 < k)"
      proof (cases "brick_id b = i")
        case True
        with bd bb(1) anchor_b anchor(2) have "b = anchor" by (auto dest: distinct_ids_eq)
        with True show ?thesis by (simp add: my mid g_def)
      next
        case False
        with anchor(2) have "b \<noteq> anchor" by auto
        with upward_above [OF up] have "brick_y anchor < brick_y b" by simp
        with False show ?thesis by (simp add: my mid g_def)
      qed
    qed
    have "board_ok rest" unfolding rest_def using app_inv_board [OF assms] by (rule board_ok_filter)
    with assms have "app_inv ((saveToHistory (currentHistoryIndex s) rest s)\<lparr>liftedGroup := Some g\<rparr>)"
      by (rule app_inv_commit) (use gok in simp)
    then show ?thesis by (simp only: eq)
  qed
qed

lemma app_inv_generate_result:
  assumes "app_inv s" and "inj u" and "range u \<inter> held_ids s = {}"
  shows "app_inv (handleGenerate_result k u result s)"
proof (cases result)
  case None
  with assms(1) show ?thesis by (simp add: handleGenerate_result_def app_inv_def split: option.splits)
next
  case (Some rb)
  define opt where "opt = sort_key brick_y (optimizeBricks u
     (map (\<lambda>b. b\<lparr>raw_color := (if raw_color b = [] then ''#EF4444'' else raw_color b)\<rparr>) rb))"
  have eq: "handleGenerate_result k u result s
      = (saveToHistory k opt s)\<lparr>isGenerating := False\<rparr>"
    using Some by (simp add: handleGenerate_result_def Let_def opt_def)
  have ok: "board_ok opt" unfolding opt_def using assms(2) by (rule optimizeBricks_board_ok)
  have rng: "brick_id ` set opt \<subseteq> range u" unfolding opt_def by (rule optimizeBricks_ids_range)
  show ?thesis unfolding eq
  proof (rule app_inv_intro)
    show "board_ok (bricks ((saveToHistory k opt s)\<lparr>isGenerating := False\<rparr>))"
      using ok by (simp add: saveToHistory_def)
    show "\<forall>snap\<in>set (history ((saveToHistory k opt s)\<lparr>isGenerating := False\<rparr>)). board_ok snap"
      using history_ok_take_snoc [of "history s" opt] assms(1) ok
      by (simp add: saveToHistory_def app_inv_def)
    fix g assume "liftedGroup ((saveToHistory k opt s)\<lparr>isGenerating := False\<rparr>) = Some g"
    then have g: "liftedGroup s = Some g" by (simp add: saveToHistory_def)
    with assms(3) have "range u \<inter> brick_id ` set (group_bricks g) = {}" by (simp add: held_ids_def)
    with rng have "brick_id ` set (group_bricks g) \<inter> brick_id ` set opt = {}" by blast
    with app_inv_group [OF assms(1) g] have "group_ok opt g" by (rule group_ok_board)
    then show "group_ok (bricks ((saveToHistory k opt s)\<lparr>isGenerating := False\<rparr>)) g"
      by (simp add: saveToHistory_def)
  qed
qed

lemma reachable_app_inv: "reachable s \<Longrightarrow> app_inv s"
proof (induction rule: reachable.induct)
  case r_init
  show ?case by (rule app_inv_init)
next
  case (r_setToolMode s m)
  then show ?case by (simp add: app_inv_def split: option.splits)
next
  case (r_setSelectedColor s c)
  then show ?case by (simp add: app_inv_def split: option.splits)
next
  case (r_setSelectedBrickType s t)
  then show ?case by (simp add: app_inv_def split: option.splits)
next
  case (r_addBrick s uuid px py pz)
  then show ?case by (simp add: app_inv_addBrick)
next
  case (r_removeBrick s i)
  then show ?case by (simp add: app_inv_removeBrick)
next
  case (r_handleLiftBrick s i)
  then show ?case by (simp add: app_inv_lift)
next
  case (r_handleDropGroup s ax ay az)
  then show ?case by (simp add: app_inv_drop)
next
  case (r_rotateLiftedGroup s)
  then show ?case by (simp add: app_inv_rotate)
next
  case (r_undo s)
  then show ?case by (simp add: app_inv_undo)
next
  case (r_redo s)
  then show ?case by (simp add: app_inv_redo)
next
  case (r_clearBricks s)
  then show ?case by (simp add: app_inv_clearBricks)
next
  case (r_handleGenerate_start s)
  then show ?case by (simp add: app_inv_handleGenerate_start)
next
  case (r_handleGenerate_result s uuidv4 capturedIndex result)
  then show ?case by (simp add: app_inv_generate_result)
qed

section \<open>Dropping and lifting\<close>

subsection \<open>A drop that collides is rejected\<close>

lemma collides_iff: "collides pb eb \<longleftrightarrow> isOverlapping pb eb \<and> brick_y pb = brick_y eb"
  by (auto simp: collides_def isOverlapping_def Let_def)

text \<open>
  Claim C5 (collision rejection). When a group is held and some member, placed at the
  anchor plus its offset, lies in the layer of a board brick and overlaps it, the drop
  changes nothing: the board, the history, the index and the held group stay as they are.
\<close>

theorem handleDropGroup_collision:
  assumes "liftedGroup s = Some lg" and "m \<in> set (group_bricks lg)" and "eb \<in> set (bricks s)"
    and "ay + or_num (offsetY m) 0 = brick_y eb"
    and "isOverlapping (m\<lparr>brick_x := ax + or_num (offsetX m) 0, brick_z := az + or_num (offsetZ m) 0\<rparr>) eb"
  shows "handleDropGroup ax ay az s = s
    \<and> bricks (handleDropGroup ax ay az s) = bricks s
    \<and> history (handleDropGroup ax ay az s) = history s
    \<and> currentHistoryIndex (handleDropGroup ax ay az s) = currentHistoryIndex s
    \<and> liftedGroup (handleDropGroup ax ay az s) = Some lg"
proof -
  have "collides (proposed_brick ax ay az m) eb"
    using assms(4,5) by (simp add: collides_def isOverlapping_def proposed_brick_def Let_def)
  with assms(2,3)
  have "list_ex (\<lambda>pb. list_ex (\<lambda>eb. collides pb eb) (bricks s))
          (map (proposed_brick ax ay az) (group_bricks lg))"
    unfolding list_ex_iff by auto
  with assms(1) have "handleDropGroup ax ay az s = s"
    by (simp add: handleDropGroup_def)
  with assms(1) show ?thesis by simp
qed


theorem handleDropGroup_collision_witness:
  "liftedGroup ex_held = Some \<lparr>group_bricks = [(mk_brick ''b'' 0 1 0 1 1)
        \<lparr>offsetX := Some 0, offsetY := Some 0, offsetZ := Some 0\<rparr>], anchorId = ''b''\<rparr>
   \<and> mk_brick ''a'' 0 0 0 1 1 \<in> set (bricks ex_held)
   \<and> handleDropGroup 0 0 0 ex_held = ex_held"
proof -
  let ?m = "(mk_brick ''b'' 0 1 0 1 1)\<lparr>offsetX := Some 0, offsetY := Some 0, offsetZ := Some 0\<rparr>"
  let ?lg = "\<lparr>group_bricks = [?m], anchorId = ''b''\<rparr>"
  have lg: "liftedGroup ex_held = Some ?lg" by code_simp
  have m: "?m \<in> set (group_bricks ?lg)" by simp
  have eb: "mk_brick ''a'' 0 0 0 1 1 \<in> set (bricks ex_held)" by code_simp
  have y: "0 + or_num (offsetY ?m) 0 = brick_y (mk_brick ''a'' 0 0 0 1 1)" by code_simp
  have ov: "isOverlapping (?m\<lparr>brick_x := 0 + or_num (offsetX ?m) 0, brick_z := 0 + or_num (offsetZ ?m) 0\<rparr>)
      (mk_brick ''a'' 0 0 0 1 1)" by code_simp
  from handleDropGroup_collision [OF lg m eb y ov] lg eb show ?thesis by simp
qed

subsection \<open>Lifting a brick and dropping it where it was\<close>

lemma find_filter_Some:
  "find Q xs = Some a \<Longrightarrow> P a \<Longrightarrow> find Q (filter P xs) = Some a"
  by (induction xs) (auto split: if_splits)

lemma or_num_Some_0: "or_num (Some v) 0 = v"
  by (simp add: or_num_def)

lemma proposed_brick_restores:
  "no_offsets b \<Longrightarrow>
   proposed_brick (brick_x a) (brick_y a) (brick_z a)
     (b\<lparr>offsetX := Some (brick_x b - brick_x a), offsetY := Some (brick_y b - brick_y a),
        offsetZ := Some (brick_z b - brick_z a)\<rparr>) = b"
  by (cases b) (simp add: proposed_brick_def or_num_Some_0 no_offsets_def)

lemma handleLiftBrick_result:
  assumes "distinct (map brick_id (bricks s))"
    and "find (\<lambda>b. brick_id b = i) (bricks s) = Some anchor"
  shows "handleLiftBrick i s =
     (saveToHistory (currentHistoryIndex s)
        (filter (\<lambda>b. brick_id b \<notin> set (getLiftableBricks i (bricks s))) (bricks s)) s)
       \<lparr>liftedGroup := Some
          \<lparr>group_bricks =
             map (\<lambda>b. b\<lparr>offsetX := Some (brick_x b - brick_x anchor),
                         offsetY := Some (brick_y b - brick_y anchor),
                         offsetZ := Some (brick_z b - brick_z anchor)\<rparr>)
               (filter (\<lambda>b. brick_id b \<in> set (getLiftableBricks i (bricks s))) (bricks s)),
           anchorId = i\<rparr>\<rparr>"
proof -
  from assms(2) have a: "anchor \<in> set (bricks s)" "brick_id anchor = i"
    by (blast dest: find_id_Some)+
  have "upward (bricks s) anchor anchor" by (rule upward_start)
  with assms a(1) have "brick_id anchor \<in> set (getLiftableBricks i (bricks s))"
    by (simp add: getLiftableBricks_member)
  with assms(2)
  have "find (\<lambda>b. brick_id b = i)
          (filter (\<lambda>b. brick_id b \<in> set (getLiftableBricks i (bricks s))) (bricks s)) = Some anchor"
    by (rule find_filter_Some)
  then show ?thesis by (simp add: handleLiftBrick_def Let_def)
qed

lemma lift_then_drop:
  assumes ok: "board_ok (bricks s)"
    and fnd: "find (\<lambda>b. brick_id b = i) (bricks s) = Some anchor"
    and free: "\<forall>g \<in> set (bricks s). \<forall>e \<in> set (bricks s).
        brick_id g \<in> set (getLiftableBricks i (bricks s))
        \<longrightarrow> brick_id e \<notin> set (getLiftableBricks i (bricks s)) \<longrightarrow> \<not> collides g e"
  shows "bricks (handleDropGroup (brick_x anchor) (brick_y anchor) (brick_z anchor) (handleLiftBrick i s))
      = filter (\<lambda>b. brick_id b \<notin> set (getLiftableBricks i (bricks s))) (bricks s)
        @ filter (\<lambda>b. brick_id b \<in> set (getLiftableBricks i (bricks s))) (bricks s)"
    and "liftedGroup (handleDropGroup (brick_x anchor) (brick_y anchor) (brick_z anchor) (handleLiftBrick i s))
      = None"
proof -
  define ids where "ids = getLiftableBricks i (bricks s)"
  define grp where "grp = filter (\<lambda>b. brick_id b \<in> set ids) (bricks s)"
  define rest where "rest = filter (\<lambda>b. brick_id b \<notin> set ids) (bricks s)"
  define addoff where "addoff = (\<lambda>b::BrickData. b\<lparr>offsetX := Some (brick_x b - brick_x anchor),
                                offsetY := Some (brick_y b - brick_y anchor),
                                offsetZ := Some (brick_z b - brick_z anchor)\<rparr>)"
  define g where "g = \<lparr>group_bricks = map addoff grp, anchorId = i\<rparr>"
  from ok have d: "distinct (map brick_id (bricks s))" by (simp add: board_ok_def)
  have lift: "handleLiftBrick i s = (saveToHistory (currentHistoryIndex s) rest s)\<lparr>liftedGroup := Some g\<rparr>"
    unfolding handleLiftBrick_result [OF d fnd] g_def addoff_def grp_def rest_def ids_def ..
  have "map (proposed_brick (brick_x anchor) (brick_y anchor) (brick_z anchor)) (map addoff grp) = map (\<lambda>b. b) grp"
    unfolding map_map
  proof (rule map_cong [OF refl])
    fix b assume "b \<in> set grp"
    with ok have "no_offsets b" by (simp add: grp_def board_ok_def)
    then show "(proposed_brick (brick_x anchor) (brick_y anchor) (brick_z anchor) \<circ> addoff) b = b"
      by (simp add: addoff_def proposed_brick_restores)
  qed
  then have prp: "map (proposed_brick (brick_x anchor) (brick_y anchor) (brick_z anchor)) (group_bricks g) = grp"
    by (simp add: g_def)
  have nocoll: "\<not> list_ex (\<lambda>pb. list_ex (\<lambda>eb. collides pb eb) rest) grp"
    using free unfolding list_ex_iff by (auto simp: grp_def rest_def ids_def)
  have drop: "handleDropGroup (brick_x anchor) (brick_y anchor) (brick_z anchor) (handleLiftBrick i s)
      = (saveToHistory (currentHistoryIndex s + 1) (rest @ grp)
           ((saveToHistory (currentHistoryIndex s) rest s)\<lparr>liftedGroup := Some g\<rparr>))\<lparr>liftedGroup := None\<rparr>"
    unfolding lift using nocoll
    by (simp add: handleDropGroup_def prp Let_def) (simp add: saveToHistory_def)
  show "bricks (handleDropGroup (brick_x anchor) (brick_y anchor) (brick_z anchor) (handleLiftBrick i s))
      = filter (\<lambda>b. brick_id b \<notin> set (getLiftableBricks i (bricks s))) (bricks s)
        @ filter (\<lambda>b. brick_id b \<in> set (getLiftableBricks i (bricks s))) (bricks s)"
    unfolding drop by (simp add: saveToHistory_def rest_def grp_def ids_def)
  show "liftedGroup (handleDropGroup (brick_x anchor) (brick_y anchor) (brick_z anchor) (handleLiftBrick i s))
      = None"
    unfolding drop by simp
qed


lemma reachable_ex_stack: "reachable (addBrick ''b'' 0 1 0 (addBrick ''a'' 0 0 0 app_init))"
proof -
  have a: "reachable (addBrick ''a'' 0 0 0 app_init)"
    by (rule r_addBrick [OF r_init]) (simp_all add: app_init_def held_ids_def)
  show ?thesis
    by (rule r_addBrick [OF a]) (simp_all add: app_init_def held_ids_def addBrick_def saveToHistory_def Let_def)
qed



lemma reachable_ex_overlap: "reachable ex_overlap"
proof -
  have a: "reachable (addBrick ''a'' 0 0 1 app_init)"
    by (rule r_addBrick [OF r_init]) (simp_all add: app_init_def held_ids_def)
  have t: "reachable ((addBrick ''a'' 0 0 1 app_init)
          \<lparr>selectedBrickType :=
             \<lparr>label = ''1x2'', type_sizeX = 1, type_sizeZ = 2, type_specialType = None\<rparr>\<rparr>)"
    by (rule r_setSelectedBrickType [OF a]) (simp add: BRICK_TYPES_def)
  show ?thesis unfolding ex_overlap_def
    by (rule r_addBrick [OF t]) (simp_all add: app_init_def held_ids_def addBrick_def saveToHistory_def Let_def)
qed

text \<open>
  Claim C6 (lift/drop conservation), amended. In a reachable state, for a brick id that
  is on the board, when no brick that the lift collects collides (same layer,
  overlapping footprints) with a brick that the lift leaves on the board, lifting the
  brick and dropping the group at the brick's original coordinates gives a board with
  the same bricks as before, in a possibly different order, and no group is held.
\<close>

theorem lift_drop_conservation:
  assumes "reachable s"
    and "find (\<lambda>b. brick_id b = i) (bricks s) = Some anchor"
    and "\<forall>g \<in> set (bricks s). \<forall>e \<in> set (bricks s).
        brick_id g \<in> set (getLiftableBricks i (bricks s))
        \<longrightarrow> brick_id e \<notin> set (getLiftableBricks i (bricks s)) \<longrightarrow> \<not> collides g e"
  shows "set (bricks (handleDropGroup (brick_x anchor) (brick_y anchor) (brick_z anchor)
                (handleLiftBrick i s))) = set (bricks s)
    \<and> mset (bricks (handleDropGroup (brick_x anchor) (brick_y anchor) (brick_z anchor)
                (handleLiftBrick i s))) = mset (bricks s)
    \<and> liftedGroup (handleDropGroup (brick_x anchor) (brick_y anchor) (brick_z anchor)
                (handleLiftBrick i s)) = None"
proof -
  from assms(1) have ok: "board_ok (bricks s)"
    by (simp add: reachable_app_inv app_inv_board)
  have m: "mset (bricks (handleDropGroup (brick_x anchor) (brick_y anchor) (brick_z anchor)
                (handleLiftBrick i s))) = mset (bricks s)"
    unfolding lift_then_drop(1) [OF ok assms(2,3)] by (simp add: add.commute)
  then have "set (bricks (handleDropGroup (brick_x anchor) (brick_y anchor) (brick_z anchor)
                (handleLiftBrick i s))) = set (bricks s)"
    by (rule mset_eq_setD)
  with m lift_then_drop(2) [OF ok assms(2,3)] show ?thesis by simp
qed

theorem lift_drop_conservation_witness:
  "reachable (addBrick ''b'' 0 1 0 (addBrick ''a'' 0 0 0 app_init))
   \<and> find (\<lambda>b. brick_id b = ''a'') (bricks (addBrick ''b'' 0 1 0 (addBrick ''a'' 0 0 0 app_init)))
       = Some (mk_brick ''a'' 0 0 0 1 1)
   \<and> getLiftableBricks ''a'' (bricks (addBrick ''b'' 0 1 0 (addBrick ''a'' 0 0 0 app_init))) = [''a'', ''b'']
   \<and> set (bricks (handleDropGroup 0 0 0
          (handleLiftBrick ''a'' (addBrick ''b'' 0 1 0 (addBrick ''a'' 0 0 0 app_init)))))
       = set (bricks (addBrick ''b'' 0 1 0 (addBrick ''a'' 0 0 0 app_init)))"
proof -
  let ?s = "addBrick ''b'' 0 1 0 (addBrick ''a'' 0 0 0 app_init)"
  have f: "find (\<lambda>b. brick_id b = ''a'') (bricks ?s) = Some (mk_brick ''a'' 0 0 0 1 1)"
    by code_simp
  have l: "getLiftableBricks ''a'' (bricks ?s) = [''a'', ''b'']"
    by code_simp
  have c: "\<forall>g \<in> set (bricks ?s). \<forall>e \<in> set (bricks ?s).
        brick_id g \<in> set (getLiftableBricks ''a'' (bricks ?s))
        \<longrightarrow> brick_id e \<notin> set (getLiftableBricks ''a'' (bricks ?s)) \<longrightarrow> \<not> collides g e"
    by code_simp
  have xyz: "brick_x (mk_brick ''a'' 0 0 0 1 1) = 0" "brick_y (mk_brick ''a'' 0 0 0 1 1) = 0"
    "brick_z (mk_brick ''a'' 0 0 0 1 1) = 0"
    by (simp_all add: mk_brick_def)
  from lift_drop_conservation [OF reachable_ex_stack f c] reachable_ex_stack f l
  show ?thesis unfolding xyz by simp
qed

text \<open>
  The claim as stated fails on a board with two overlapping bricks in one layer, which
  \<open>addBrick\<close> allows: a 1x1 brick at \<open>(0, 0, 1)\<close> under a 1x2 brick at \<open>(0, 0, 0)\<close>. The
  lifted 1x1 brick collides with the 1x2 brick when dropped back, so the drop is
  rejected and the board keeps only the 1x2 brick.
\<close>

theorem lift_drop_conservation_counterexample:
  "reachable ex_overlap
   \<and> bricks ex_overlap = [mk_brick ''a'' 0 0 1 1 1, mk_brick ''b'' 0 0 0 1 2]
   \<and> bricks (handleDropGroup 0 0 1 (handleLiftBrick ''a'' ex_overlap)) = [mk_brick ''b'' 0 0 0 1 2]
   \<and> set (bricks (handleDropGroup 0 0 1 (handleLiftBrick ''a'' ex_overlap))) \<noteq> set (bricks ex_overlap)"
proof -
  have b: "bricks ex_overlap = [mk_brick ''a'' 0 0 1 1 1, mk_brick ''b'' 0 0 0 1 2]"
    by code_simp
  have d: "bricks (handleDropGroup 0 0 1 (handleLiftBrick ''a'' ex_overlap)) = [mk_brick ''b'' 0 0 0 1 2]"
    by code_simp
  have "set (bricks (handleDropGroup 0 0 1 (handleLiftBrick ''a'' ex_overlap))) \<noteq> set (bricks ex_overlap)"
    unfolding b d by (simp add: mk_brick_def)
  with reachable_ex_overlap b d show ?thesis by simp
qed


subsection \<open>The held group\<close>







text \<open>
  A rotation moves a member at offset \<open>(0, 0, 0)\<close> to \<open>(0, 0, - sizeX)\<close>, a missing or zero
  size counting as 1, so the member no longer has the offset \<open>(0, 0, 0)\<close>.
\<close>

lemma rotate_member_zero_offset:
  assumes "zero_offset b"
  shows "offsetX (rotate_member b) = Some 0" "offsetY (rotate_member b) = Some 0"
    "offsetZ (rotate_member b) = Some (- or_num (sizeX b) 1)" "\<not> zero_offset (rotate_member b)"
  using assms
  by (auto simp: zero_offset_def rotate_member_def or_num_def Let_def split: option.splits if_splits)

section \<open>Placement outside the board\<close>

text \<open>
  A hover on the ground plane outside the board clears the hover position, and the
  click that follows places nothing.
\<close>

lemma handleClick_after_out_of_board_hover:
  assumes "out_of_board (snapToGrid ptx) (snapToGrid ptz)"
  shows "handleClick uuid (handlePointerMove (ptx, pty, ptz) existingY s)
       = handlePointerMove (ptx, pty, ptz) existingY s"
    and "bricks (handlePointerMove (ptx, pty, ptz) existingY s) = bricks s"
    and "history (handlePointerMove (ptx, pty, ptz) existingY s) = history s"
  using assms by (simp_all add: handleClick_def handlePointerMove_def Let_def)

text \<open>\<open>addBrick\<close> itself places a brick at any coordinates.\<close>

lemma addBrick_unchecked:
  "length (bricks (addBrick uuid px py pz s)) = length (bricks s) + 1"
  "brick_x (last (bricks (addBrick uuid px py pz s))) = px"
  "brick_z (last (bricks (addBrick uuid px py pz s))) = pz"
  "currentHistoryIndex (addBrick uuid px py pz s) = currentHistoryIndex s + 1"
  by (simp_all add: addBrick_def saveToHistory_def Let_def)

text \<open>
  Claim C8, at an input where the code departs from it. A brick stands at \<open>(10, 0, 0)\<close>,
  at the edge of the board. In build mode a click on its side face that looks along
  the positive x axis is a placement request at \<open>x = 11\<close>, outside the board; it is not
  ignored: a brick is added at \<open>(11, 0, 0)\<close> and the history gets a new entry. The same
  position is refused when it is hovered on the ground plane.
\<close>

theorem onBrickClick_out_of_board:
  "bricks ex_edge = [mk_brick ''a'' 10 0 0 1 1]
   \<and> toolMode ex_edge = BUILD
   \<and> out_of_board 11 0
   \<and> bricks (onBrickClick ''b'' ex_side_click (mk_brick ''a'' 10 0 0 1 1) ex_edge)
       = [mk_brick ''a'' 10 0 0 1 1, mk_brick ''b'' 11 0 0 1 1]
   \<and> length (history (onBrickClick ''b'' ex_side_click (mk_brick ''a'' 10 0 0 1 1) ex_edge))
       = length (history ex_edge) + 1
   \<and> hoverPos (handlePointerMove (11, 0, 0) 0 ex_edge) = None"
  by (simp add: ex_side_click_def onBrickClick_def ex_edge_def handleClick_def
      handlePointerMove_def scene_init_def snapToGrid_def out_of_board_def MAX_BOARD_SIZE_def
      addBrick_def saveToHistory_def mk_brick_def Let_def)

section \<open>The packer and the order of its input\<close>

subsection \<open>One group: the emitted bricks do not depend on the ids or on what was emitted before\<close>

lemma fits_set_cong: "set cs1 = set cs2 \<Longrightarrow> fits cs1 p cx cz w d = fits cs2 p cx cz w d"
  by (simp add: fits_def)

lemma findBestFit_set_cong:
  "set cs1 = set cs2 \<Longrightarrow> findBestFit cs1 p cx cz ts = findBestFit cs2 p cx cz ts"
  by (induction ts) (simp_all add: fits_set_cong [of cs1 cs2])

lemma place_coord_set_cong:
  "set cs1 = set cs2 \<Longrightarrow> place_coord u ts cs1 py pc c st = place_coord u ts cs2 py pc c st"
  by (cases c; cases st) (simp add: place_coord_def Let_def findBestFit_set_cong [of cs1 cs2])

lemma place_coord_shape:
  "\<exists>p' e. \<forall>u out. \<exists>e'. place_coord u ts cs py pc c (p, out) = (p', out @ e') \<and> map strip_id e' = e"
proof (cases c)
  case (Pair cx cz)
  show ?thesis
  proof (cases "coord_key cx cz \<in> set p")
    case True
    with Pair have "\<forall>u out. \<exists>e'. place_coord u ts cs py pc c (p, out) = (p, out @ e') \<and> map strip_id e' = []"
      by (simp add: place_coord_def)
    then show ?thesis by blast
  next
    case False
    show ?thesis
    proof (cases "findBestFit cs p cx cz ts")
      case None
      with False Pair show ?thesis
        by (intro exI [of _ "set_add (coord_key cx cz) p"]
            exI [of _ "[\<lparr>brick_id = [], brick_x = cx, brick_y = py, brick_z = cz,
                      color = pc, sizeX = Some 1, sizeZ = Some 1,
                      rotation = None, specialType = None,
                      offsetX = None, offsetY = None, offsetZ = None\<rparr>]"])
           (simp add: place_coord_def strip_id_def)
    next
      case (Some tr)
      obtain t r where tr: "tr = (t, r)" by (cases tr)
      with Some False Pair show ?thesis
        by (intro exI [of _ "fold (\<lambda>(px, pz) p. set_add (coord_key px pz) p)
                (rect_cells cx cz (if r then type_sizeZ t else type_sizeX t)
                   (if r then type_sizeX t else type_sizeZ t)) p"]
            exI [of _ "[\<lparr>brick_id = [], brick_x = cx, brick_y = py, brick_z = cz,
                       color = pc, sizeX = Some (if r then type_sizeZ t else type_sizeX t),
                       sizeZ = Some (if r then type_sizeX t else type_sizeZ t),
                       rotation = Some (if r then 90 else 0), specialType = None,
                       offsetX = None, offsetY = None, offsetZ = None\<rparr>]"])
           (simp add: place_coord_def strip_id_def Let_def)
    qed
  qed
qed

lemma fold_place_coord_strip:
  "map strip_id (snd (fold (place_coord u ts cs py pc) coords (p, out)))
     = map strip_id out @ map strip_id (snd (fold (place_coord (\<lambda>_. []) ts cs py pc) coords (p, [])))"
proof (induction coords arbitrary: p out u)
  case Nil
  show ?case by simp
next
  case (Cons c coords)
  from place_coord_shape [of ts cs py pc c p] obtain p' e where
    sh: "\<And>u out. \<exists>e'. place_coord u ts cs py pc c (p, out) = (p', out @ e') \<and> map strip_id e' = e"
    by blast
  from sh [of u out] obtain e1 where e1: "place_coord u ts cs py pc c (p, out) = (p', out @ e1)"
    "map strip_id e1 = e" by blast
  from sh [of "\<lambda>_. []" "[]"] obtain e2 where e2: "place_coord (\<lambda>_. []) ts cs py pc c (p, []) = (p', e2)"
    "map strip_id e2 = e" by auto
  have "map strip_id (snd (fold (place_coord u ts cs py pc) (c # coords) (p, out)))
      = map strip_id (out @ e1) @ map strip_id (snd (fold (place_coord (\<lambda>_. []) ts cs py pc) coords (p', [])))"
    by (simp add: e1(1) Cons.IH [of u p' "out @ e1"])
  moreover have "map strip_id (snd (fold (place_coord (\<lambda>_. []) ts cs py pc) (c # coords) (p, [])))
      = map strip_id e2 @ map strip_id (snd (fold (place_coord (\<lambda>_. []) ts cs py pc) coords (p', [])))"
    by (simp add: e2(1) Cons.IH [of "\<lambda>_. []" p' e2])
  ultimately show ?case by (simp add: e1(2) e2(2))
qed

lemma process_group_strip:
  "map strip_id (process_group u ts entry out) = map strip_id out @ group_out ts entry"
proof (cases entry)
  case (Pair key cs)
  show ?thesis
  proof (cases "js_split CHR '','' key")
    case Nil
    with Pair show ?thesis by (simp add: process_group_def group_out_def)
  next
    case (Cons yStr rest)
    show ?thesis
    proof (cases rest)
      case Nil
      with Cons Pair show ?thesis by (simp add: process_group_def group_out_def)
    next
      case (Cons pcolor rest')
      with \<open>js_split CHR '','' key = yStr # rest\<close> Pair show ?thesis
        by (simp add: process_group_def group_out_def Let_def
            fold_place_coord_strip [of u ts cs _ pcolor _ "[]" out])
    qed
  qed
qed

lemma fold_process_group_strip:
  "map strip_id (fold (process_group u ts) m out) = map strip_id out @ concat (map (group_out ts) m)"
  by (induction m arbitrary: out) (simp_all add: process_group_strip)

lemma optimizeBricks_strip:
  "map strip_id (optimizeBricks u raw) = concat (map (group_out standardTypes) (bricksByLayerColor raw))"
  by (simp add: optimizeBricks_def fold_process_group_strip)


subsection \<open>A group depends on the set of its coordinates only\<close>

lemma sort_key_inj_mset:
  assumes "inj f" and "mset xs = mset ys"
  shows "sort_key f xs = sort_key f ys"
proof -
  have "map f (sort_key f xs) = sort (map f xs)"
    by (rule properties_for_sort [symmetric]) simp_all
  moreover have "map f (sort_key f ys) = sort (map f ys)"
    by (rule properties_for_sort [symmetric]) simp_all
  moreover have "sort (map f xs) = sort (map f ys)"
    by (rule properties_for_sort) (simp_all add: assms(2))
  ultimately have "map f (sort_key f xs) = map f (sort_key f ys)" by simp
  with assms(1) show ?thesis by (simp add: inj_map_eq_map)
qed

lemma sort_coords_mset: "mset xs = mset ys \<Longrightarrow> sort_coords xs = sort_coords ys"
  unfolding sort_coords_def by (rule sort_key_inj_mset) (auto simp: inj_def)

lemma process_group_cong:
  assumes "set cs1 = set cs2" and "distinct cs1" and "distinct cs2"
  shows "process_group u ts (k, cs1) out = process_group u ts (k, cs2) out"
proof -
  from assms have "mset cs1 = mset cs2" by (simp add: set_eq_iff_mset_eq_distinct)
  then have "mset (map parse_coord cs1) = mset (map parse_coord cs2)" by simp
  then have c: "sort_coords (map parse_coord cs1) = sort_coords (map parse_coord cs2)"
    by (rule sort_coords_mset)
  have p: "place_coord u ts cs1 py pc = place_coord u ts cs2 py pc" for py pc
    by (intro ext) (rule place_coord_set_cong [OF assms(1)])
  show ?thesis by (simp add: process_group_def c p Let_def split: list.splits)
qed

lemma group_out_cong:
  "set cs1 = set cs2 \<Longrightarrow> distinct cs1 \<Longrightarrow> distinct cs2
   \<Longrightarrow> group_out ts (k, cs1) = group_out ts (k, cs2)"
  unfolding group_out_def by (rule arg_cong [where f = "map strip_id"]) (rule process_group_cong)

subsection \<open>The groups of two inputs with the same voxels\<close>

lemma map_add_coord_keys_old: "k \<in> fst ` set m \<Longrightarrow> map fst (map_add_coord k v m) = map fst m"
  by (induction m) force+

lemma map_add_coord_keys_new: "k \<notin> fst ` set m \<Longrightarrow> map fst (map_add_coord k v m) = map fst m @ [k]"
  by (induction m) auto

lemma map_add_coord_key_set: "fst ` set (map_add_coord k v m) = insert k (fst ` set m)"
proof (cases "k \<in> fst ` set m")
  case True
  from map_add_coord_keys_old [OF True, of v]
  have "set (map fst (map_add_coord k v m)) = set (map fst m)" by simp
  with True show ?thesis by auto
next
  case False
  from map_add_coord_keys_new [OF False, of v]
  have "set (map fst (map_add_coord k v m)) = set (map fst m @ [k])" by simp
  then show ?thesis by auto
qed

lemma map_add_coord_distinct: "distinct (map fst m) \<Longrightarrow> distinct (map fst (map_add_coord k v m))"
  by (cases "k \<in> fst ` set m") (simp_all add: map_add_coord_keys_old map_add_coord_keys_new)

lemma map_add_coord_lookup:
  "map_of (map_add_coord k v m) k' =
     (if k' = k then Some (set_add v (case map_of m k of None \<Rightarrow> [] | Some cs \<Rightarrow> cs))
      else map_of m k')"
  by (induction m) (auto simp: set_add_def)

lemma map_add_coord_values:
  "\<forall>e \<in> set m. distinct (snd e) \<Longrightarrow> \<forall>e \<in> set (map_add_coord k v m). distinct (snd e)"
  by (induction m) (force simp: set_add_def split: if_splits)+

lemma coords_of_map_add_coord:
  "coords_of (map_add_coord k v m) k' = (if k' = k then insert v (coords_of m k) else coords_of m k')"
  by (auto simp: coords_of_def map_add_coord_lookup set_add_def split: option.splits)

lemma groups_fold:
  assumes "distinct (map fst m0)" and "\<forall>e \<in> set m0. distinct (snd e)"
  shows "distinct (map fst (fold (\<lambda>b m. map_add_coord (layer_key b) (coord_key (raw_x b) (raw_z b)) m) raw m0))
    \<and> (\<forall>e \<in> set (fold (\<lambda>b m. map_add_coord (layer_key b) (coord_key (raw_x b) (raw_z b)) m) raw m0).
          distinct (snd e))
    \<and> fst ` set (fold (\<lambda>b m. map_add_coord (layer_key b) (coord_key (raw_x b) (raw_z b)) m) raw m0)
        = fst ` set m0 \<union> layer_key ` set raw
    \<and> (\<forall>k. coords_of (fold (\<lambda>b m. map_add_coord (layer_key b) (coord_key (raw_x b) (raw_z b)) m) raw m0) k
        = coords_of m0 k \<union> (\<lambda>b. coord_key (raw_x b) (raw_z b)) ` {b \<in> set raw. layer_key b = k})"
  using assms
proof (induction raw arbitrary: m0)
  case Nil
  then show ?case by simp
next
  case (Cons b raw)
  let ?m1 = "map_add_coord (layer_key b) (coord_key (raw_x b) (raw_z b)) m0"
  have d: "distinct (map fst ?m1)"
    using Cons.prems(1) by (rule map_add_coord_distinct)
  have v: "\<forall>e \<in> set ?m1. distinct (snd e)"
    using Cons.prems(2) by (rule map_add_coord_values)
  have k: "fst ` set ?m1 = insert (layer_key b) (fst ` set m0)"
    by (rule map_add_coord_key_set)
  from Cons.IH [OF d v] k show ?case
    by (auto simp: coords_of_map_add_coord)
qed

lemma groups_facts:
  "distinct (map fst (bricksByLayerColor raw))"
  "\<forall>e \<in> set (bricksByLayerColor raw). distinct (snd e)"
  "fst ` set (bricksByLayerColor raw) = layer_key ` set raw"
  "coords_of (bricksByLayerColor raw) k
     = (\<lambda>b. coord_key (raw_x b) (raw_z b)) ` {b \<in> set raw. layer_key b = k}"
  using groups_fold [of "[]" raw] by (simp_all add: bricksByLayerColor_def coords_of_def)

lemma groups_entry:
  assumes "(k, cs) \<in> set (bricksByLayerColor raw)"
  shows "distinct cs" and "set cs = coords_of (bricksByLayerColor raw) k"
proof -
  from assms groups_facts(2) [of raw] show "distinct cs" by auto
  from assms groups_facts(1) [of raw] have "map_of (bricksByLayerColor raw) k = Some cs" by simp
  then show "set cs = coords_of (bricksByLayerColor raw) k" by (simp add: coords_of_def)
qed

lemma groups_same_voxels:
  assumes "set raw1 = set raw2"
    and "(k, cs1) \<in> set (bricksByLayerColor raw1)" and "(k, cs2) \<in> set (bricksByLayerColor raw2)"
  shows "set cs1 = set cs2" "distinct cs1" "distinct cs2"
  using groups_entry [OF assms(2)] groups_entry [OF assms(3)] assms(1)
  by (simp_all add: groups_facts(4))


lemma mset_concat_map_cong:
  assumes "mset xs = mset ys"
  shows "mset (concat (map h xs)) = mset (concat (map h ys))"
proof -
  have "mset (concat (map h zs)) = sum_mset (image_mset (\<lambda>z. mset (h z)) (mset zs))" for zs
    by (induction zs) simp_all
  with assms show ?thesis by simp
qed

lemma groups_out_same_voxels:
  assumes "set raw1 = set raw2"
  shows "\<exists>h. map (group_out ts) (bricksByLayerColor raw1) = map h (map fst (bricksByLayerColor raw1))
           \<and> map (group_out ts) (bricksByLayerColor raw2) = map h (map fst (bricksByLayerColor raw2))"
proof -
  let ?M1 = "bricksByLayerColor raw1" and ?M2 = "bricksByLayerColor raw2"
  define h where "h k = group_out ts (k, the (map_of ?M1 k))" for k
  have m1: "map_of ?M1 k = Some cs" if "(k, cs) \<in> set ?M1" for k cs
    using that groups_facts(1) [of raw1] by simp
  have a: "group_out ts e = h (fst e)" if "e \<in> set ?M1" for e
    using that m1 [of "fst e" "snd e"] by (simp add: h_def)
  have b: "group_out ts e = h (fst e)" if e: "e \<in> set ?M2" for e
  proof -
    obtain k cs2 where kc: "e = (k, cs2)" by (cases e)
    with e have "k \<in> fst ` set ?M2" by force
    then have "k \<in> fst ` set ?M1" using assms by (simp add: groups_facts(3))
    then obtain cs1 where cs1: "(k, cs1) \<in> set ?M1" by auto
    from e kc have "(k, cs2) \<in> set ?M2" by simp
    with assms cs1 have "set cs1 = set cs2" "distinct cs1" "distinct cs2"
      by (rule groups_same_voxels)+
    then have "group_out ts (k, cs2) = group_out ts (k, cs1)"
      by (intro group_out_cong) simp_all
    with m1 [OF cs1] kc show ?thesis by (simp add: h_def)
  qed
  have "map (group_out ts) ?M1 = map h (map fst ?M1)" using a by simp
  moreover have "map (group_out ts) ?M2 = map h (map fst ?M2)" using b by simp
  ultimately show ?thesis by blast
qed

lemma process_groups_same_voxels:
  assumes "set raw1 = set raw2"
    and "map fst (bricksByLayerColor raw1) = map fst (bricksByLayerColor raw2)"
  shows "map (process_group u ts) (bricksByLayerColor raw1) = map (process_group u ts) (bricksByLayerColor raw2)"
proof (rule nth_equalityI)
  let ?M1 = "bricksByLayerColor raw1" and ?M2 = "bricksByLayerColor raw2"
  from assms(2) have len: "length ?M1 = length ?M2" by (rule map_eq_imp_length_eq)
  then show "length (map (process_group u ts) ?M1) = length (map (process_group u ts) ?M2)" by simp
  fix i assume "i < length (map (process_group u ts) ?M1)"
  then have i: "i < length ?M1" "i < length ?M2" using len by simp_all
  obtain k cs1 where e1: "?M1 ! i = (k, cs1)" by (cases "?M1 ! i")
  obtain k' cs2 where e2: "?M2 ! i = (k', cs2)" by (cases "?M2 ! i")
  from assms(2) i have "fst (?M1 ! i) = fst (?M2 ! i)" by (metis nth_map)
  with e1 e2 have kk: "k' = k" by simp
  from i e1 have in1: "(k, cs1) \<in> set ?M1" by (metis nth_mem)
  from i e2 kk have in2: "(k, cs2) \<in> set ?M2" by (metis nth_mem)
  from assms(1) in1 in2 have "set cs1 = set cs2" "distinct cs1" "distinct cs2"
    by (rule groups_same_voxels)+
  then have "process_group u ts (k, cs1) = process_group u ts (k, cs2)"
    by (intro ext process_group_cong)
  with i e1 e2 kk show "map (process_group u ts) ?M1 ! i = map (process_group u ts) ?M2 ! i" by simp
qed

text \<open>
  Claim C7 (packing determinism), amended. For two input lists with the same voxels,
  in any orders and with any repetitions, the two outputs hold the same bricks
  (position, size, color, rotation) with the same multiplicities. When moreover the
  group keys \<open>(y, color)\<close> make their first appearance in the same order in both inputs,
  the two outputs are the same list, also with the same ids when the same ids are drawn.
\<close>

theorem optimizeBricks_same_voxels:
  assumes "set raw1 = set raw2"
  shows "mset (map strip_id (optimizeBricks u1 raw1)) = mset (map strip_id (optimizeBricks u2 raw2))
    \<and> (map fst (bricksByLayerColor raw1) = map fst (bricksByLayerColor raw2) \<longrightarrow>
          map strip_id (optimizeBricks u1 raw1) = map strip_id (optimizeBricks u2 raw2)
          \<and> optimizeBricks u1 raw1 = optimizeBricks u1 raw2)"
proof (intro conjI impI)
  let ?M1 = "bricksByLayerColor raw1" and ?M2 = "bricksByLayerColor raw2"
  from groups_out_same_voxels [OF assms, of standardTypes] obtain h where
    h: "map (group_out standardTypes) ?M1 = map h (map fst ?M1)"
       "map (group_out standardTypes) ?M2 = map h (map fst ?M2)" by blast
  have "set (map fst ?M1) = set (map fst ?M2)"
    using assms by (simp add: groups_facts(3))
  with groups_facts(1) [of raw1] groups_facts(1) [of raw2]
  have "mset (map fst ?M1) = mset (map fst ?M2)"
    by (rule set_eq_iff_mset_eq_distinct [THEN iffD1])
  then have "mset (concat (map h (map fst ?M1))) = mset (concat (map h (map fst ?M2)))"
    by (rule mset_concat_map_cong)
  then show "mset (map strip_id (optimizeBricks u1 raw1)) = mset (map strip_id (optimizeBricks u2 raw2))"
    by (simp only: mset_map [symmetric] optimizeBricks_strip h)
  assume ks: "map fst ?M1 = map fst ?M2"
  then show "map strip_id (optimizeBricks u1 raw1) = map strip_id (optimizeBricks u2 raw2)"
    by (simp only: optimizeBricks_strip h)
  have "fold (process_group u1 standardTypes) M [] = fold (\<lambda>f. f) (map (process_group u1 standardTypes) M) []" for M
    by (simp add: fold_map o_def)
  then show "optimizeBricks u1 raw1 = optimizeBricks u1 raw2"
    unfolding optimizeBricks_def
    by (simp only: process_groups_same_voxels [OF assms ks])
qed

theorem optimizeBricks_same_voxels_witness:
  "set [mk_raw 0 0 0 ''#F00'', mk_raw 1 0 0 ''#F00''] = set [mk_raw 1 0 0 ''#F00'', mk_raw 0 0 0 ''#F00'']
   \<and> map fst (bricksByLayerColor [mk_raw 0 0 0 ''#F00'', mk_raw 1 0 0 ''#F00''])
       = map fst (bricksByLayerColor [mk_raw 1 0 0 ''#F00'', mk_raw 0 0 0 ''#F00''])
   \<and> optimizeBricks ex_uuid [mk_raw 0 0 0 ''#F00'', mk_raw 1 0 0 ''#F00'']
       = optimizeBricks ex_uuid [mk_raw 1 0 0 ''#F00'', mk_raw 0 0 0 ''#F00'']"
proof -
  have s: "set [mk_raw 0 0 0 ''#F00'', mk_raw 1 0 0 ''#F00''] = set [mk_raw 1 0 0 ''#F00'', mk_raw 0 0 0 ''#F00'']"
    by auto
  have k: "map fst (bricksByLayerColor [mk_raw 0 0 0 ''#F00'', mk_raw 1 0 0 ''#F00''])
       = map fst (bricksByLayerColor [mk_raw 1 0 0 ''#F00'', mk_raw 0 0 0 ''#F00''])"
    by code_simp
  from optimizeBricks_same_voxels [OF s, of ex_uuid ex_uuid] s k show ?thesis by blast
qed

text \<open>
  The claim as stated fails: the groups are emitted in the order in which their keys
  first appear in the input. Two voxels in different layers, given in the two possible
  orders, yield the same two bricks in opposite list orders.
\<close>

theorem optimizeBricks_order_counterexample:
  "set [mk_raw 0 0 0 ''#F00'', mk_raw 0 1 0 ''#F00''] = set [mk_raw 0 1 0 ''#F00'', mk_raw 0 0 0 ''#F00'']
   \<and> map brick_y (optimizeBricks ex_uuid [mk_raw 0 0 0 ''#F00'', mk_raw 0 1 0 ''#F00'']) = [0, 1]
   \<and> map brick_y (optimizeBricks ex_uuid [mk_raw 0 1 0 ''#F00'', mk_raw 0 0 0 ''#F00'']) = [1, 0]
   \<and> map strip_id (optimizeBricks ex_uuid [mk_raw 0 0 0 ''#F00'', mk_raw 0 1 0 ''#F00''])
       \<noteq> map strip_id (optimizeBricks ex_uuid [mk_raw 0 1 0 ''#F00'', mk_raw 0 0 0 ''#F00''])"
proof -
  have "set [mk_raw 0 0 0 ''#F00'', mk_raw 0 1 0 ''#F00''] = set [mk_raw 0 1 0 ''#F00'', mk_raw 0 0 0 ''#F00'']"
    by auto
  moreover have "map brick_y (optimizeBricks ex_uuid [mk_raw 0 0 0 ''#F00'', mk_raw 0 1 0 ''#F00'']) = [0, 1]"
    by code_simp
  moreover have "map brick_y (optimizeBricks ex_uuid [mk_raw 0 1 0 ''#F00'', mk_raw 0 0 0 ''#F00'']) = [1, 0]"
    by code_simp
  moreover have "map strip_id (optimizeBricks ex_uuid [mk_raw 0 0 0 ''#F00'', mk_raw 0 1 0 ''#F00''])
       \<noteq> map strip_id (optimizeBricks ex_uuid [mk_raw 0 1 0 ''#F00'', mk_raw 0 0 0 ''#F00''])"
    by code_simp
  ultimately show ?thesis by simp
qed

section \<open>Coverage of the packer for colors without a comma\<close>

subsection \<open>Printing and parsing integers\<close>

lemma is_digit_digit_char: "n < 10 \<Longrightarrow> is_digit (digit_char n)"
proof -
  assume "n < 10"
  then have "n \<in> {0, 1, 2, 3, 4, 5, 6, 7, 8, 9}" by auto
  then show ?thesis by (auto simp: is_digit_def digit_char_def)
qed

lemma digit_val_digit_char: "n < 10 \<Longrightarrow> digit_val (digit_char n) = n"
proof -
  assume "n < 10"
  then have "n \<in> {0, 1, 2, 3, 4, 5, 6, 7, 8, 9}" by auto
  then show ?thesis by (auto simp: digit_val_def digit_char_def)
qed

lemma is_digit_not_sep: "is_digit c \<Longrightarrow> c \<noteq> CHR '','' \<and> c \<noteq> CHR ''-''"
  by (auto simp: is_digit_def)

lemma nat_to_string_digits: "list_all is_digit (nat_to_string n)"
proof (induction n rule: nat_to_string.induct)
  case (1 n)
  show ?case
  proof (cases "n < 10")
    case True
    then show ?thesis by (subst nat_to_string.simps) (simp add: is_digit_digit_char)
  next
    case False
    with 1 show ?thesis by (subst nat_to_string.simps) (simp add: is_digit_digit_char)
  qed
qed

lemma nat_to_string_nonempty: "nat_to_string n \<noteq> []"
  by (subst nat_to_string.simps) simp

lemma parse_digits_snoc: "parse_digits (ds @ [c]) = 10 * parse_digits ds + digit_val c"
  by (simp add: parse_digits_def)

lemma parse_digits_nat_to_string: "parse_digits (nat_to_string n) = n"
proof (induction n rule: nat_to_string.induct)
  case (1 n)
  show ?case
  proof (cases "n < 10")
    case True
    then show ?thesis
      by (subst nat_to_string.simps) (simp add: parse_digits_def digit_val_digit_char)
  next
    case False
    with 1 have "parse_digits (nat_to_string (n div 10)) = n div 10" by simp
    with False show ?thesis
      by (subst nat_to_string.simps) (simp add: parse_digits_snoc digit_val_digit_char)
  qed
qed

lemma takeWhile_all: "list_all P xs \<Longrightarrow> takeWhile P xs = xs"
  by (induction xs) auto

lemma nat_to_string_hd: "\<exists>c cs. nat_to_string n = c # cs \<and> is_digit c"
  using nat_to_string_digits [of n] nat_to_string_nonempty [of n]
  by (cases "nat_to_string n") auto

lemma parseInt_num_to_string: "parseInt (num_to_string i) = Some i"
proof (cases "i < 0")
  case True
  then show ?thesis
    using nat_to_string_digits [of "nat (- i)"] nat_to_string_nonempty [of "nat (- i)"]
    by (simp add: parseInt_def num_to_string_def takeWhile_all parse_digits_nat_to_string)
next
  case False
  obtain c cs where c: "nat_to_string (nat i) = c # cs" "is_digit c"
    using nat_to_string_hd by blast
  then have "c \<noteq> CHR ''-''" by (simp add: is_digit_not_sep)
  moreover have "takeWhile is_digit (c # cs) = c # cs"
    using nat_to_string_digits [of "nat i"] c(1) by (metis takeWhile_all)
  moreover have "parse_digits (c # cs) = nat i"
    using parse_digits_nat_to_string [of "nat i"] c(1) by simp
  ultimately show ?thesis using False c(1)
    by (simp add: parseInt_def num_to_string_def)
qed

lemma Number_num_to_string: "Number (num_to_string i) = Some i"
proof (cases "i < 0")
  case True
  then show ?thesis
    using nat_to_string_digits [of "nat (- i)"] nat_to_string_nonempty [of "nat (- i)"]
    by (simp add: Number_def num_to_string_def parse_digits_nat_to_string)
next
  case False
  obtain c cs where c: "nat_to_string (nat i) = c # cs" "is_digit c"
    using nat_to_string_hd by blast
  then have "c \<noteq> CHR ''-''" by (simp add: is_digit_not_sep)
  moreover have "list_all is_digit (c # cs)"
    using nat_to_string_digits [of "nat i"] c(1) by simp
  moreover have "parse_digits (c # cs) = nat i"
    using parse_digits_nat_to_string [of "nat i"] c(1) by simp
  ultimately show ?thesis using False c(1)
    by (simp add: Number_def num_to_string_def)
qed

lemma num_to_string_no_comma: "CHR '','' \<notin> set (num_to_string i)"
proof -
  have "CHR '','' \<notin> set (nat_to_string n)" for n
    using nat_to_string_digits [of n] by (auto simp: list_all_iff dest: is_digit_not_sep)
  then show ?thesis by (simp add: num_to_string_def)
qed

subsection \<open>Splitting keys\<close>

lemma js_split_nonempty: "js_split sep s \<noteq> []"
  by (induction s) (auto split: list.splits)

lemma js_split_no_sep: "sep \<notin> set s \<Longrightarrow> js_split sep s = [s]"
  by (induction s) auto

lemma js_split_append: "sep \<notin> set a \<Longrightarrow> js_split sep (a @ sep # b) = a # js_split sep b"
  by (induction a) auto

lemma parse_coord_coord_key: "parse_coord (coord_key cx cz) = (cx, cz)"
  by (simp add: parse_coord_def coord_key_def js_split_append js_split_no_sep
      num_to_string_no_comma Number_num_to_string num_def)

lemma coord_key_inj: "coord_key cx cz = coord_key cx' cz' \<longleftrightarrow> cx = cx' \<and> cz = cz'"
  by (metis parse_coord_coord_key prod.inject)

lemma js_split_layer_key:
  "js_split CHR '','' (layer_key b) = num_to_string (raw_y b) # js_split CHR '','' (raw_color b)"
  by (simp add: layer_key_def js_split_append num_to_string_no_comma)

lemma num_to_string_inj: "num_to_string i = num_to_string j \<Longrightarrow> i = j"
  by (metis parseInt_num_to_string option.inject)

lemma takeWhile_upto_sep: "x \<notin> set a \<Longrightarrow> takeWhile (\<lambda>c. c \<noteq> x) (a @ x # s) = a"
  by (induction a) auto

lemma layer_key_inj:
  "layer_key a = layer_key b \<longleftrightarrow> raw_y a = raw_y b \<and> raw_color a = raw_color b"
proof
  assume eq: "layer_key a = layer_key b"
  have tw: "takeWhile (\<lambda>c. c \<noteq> CHR '','') (num_to_string i @ CHR '','' # s) = num_to_string i" for i s
    using num_to_string_no_comma [of i] by (rule takeWhile_upto_sep)
  from eq have "num_to_string (raw_y a) = num_to_string (raw_y b)"
    using tw [of "raw_y a" "raw_color a"] tw [of "raw_y b" "raw_color b"] by (simp add: layer_key_def)
  with eq show "raw_y a = raw_y b \<and> raw_color a = raw_color b"
    by (auto simp: layer_key_def dest: num_to_string_inj)
qed (simp add: layer_key_def)

subsection \<open>One group\<close>

lemma rect_cells_product:
  "rect_cells cx cz w d = map (\<lambda>(i, j). (cx + i, cz + j)) (List.product [0..w - 1] [0..d - 1])"
  by (simp add: rect_cells_def product_concat_map map_concat o_def)

lemma distinct_rect_cells: "distinct (rect_cells cx cz w d)"
  unfolding rect_cells_product
  by (rule distinct_map [THEN iffD2]) (auto simp: distinct_product inj_on_def)

lemma set_rect_cells:
  "set (rect_cells cx cz w d) = {(cx + i, cz + j) | i j. 0 \<le> i \<and> i < w \<and> 0 \<le> j \<and> j < d}"
  unfolding rect_cells_product by (auto simp: image_iff)

lemma origin_in_rect_cells: "1 \<le> w \<Longrightarrow> 1 \<le> d \<Longrightarrow> (cx, cz) \<in> set (rect_cells cx cz w d)"
  unfolding set_rect_cells by force

lemma findBestFit_Some:
  "findBestFit cs p cx cz ts = Some (t, r) \<Longrightarrow>
   t \<in> set ts \<and> fits cs p cx cz (if r then type_sizeZ t else type_sizeX t)
                                  (if r then type_sizeX t else type_sizeZ t)"
  by (induction ts) (auto split: if_splits)

lemma set_fold_set_add_cells:
  "set (fold (\<lambda>(px, pz) p. set_add (coord_key px pz) p) cells p)
     = set p \<union> (\<lambda>(px, pz). coord_key px pz) ` set cells"
  by (induction cells arbitrary: p) (auto simp: set_add_def split: if_splits)

lemma types_ok_standardTypes: "types_ok standardTypes"
  by code_simp


lemma group_inv_add:
  assumes inv: "group_inv C py pc p E"
    and nb: "cells_xz nb = R" "brick_y nb = py" "color nb = pc"
    and R: "distinct R" "set R \<subseteq> C" "\<forall>q \<in> set R. (\<lambda>(cx, cz). coord_key cx cz) q \<notin> set p"
    and p': "set p' = set p \<union> (\<lambda>(cx, cz). coord_key cx cz) ` set R"
  shows "group_inv C py pc p' (E @ [nb])"
proof -
  let ?k = "\<lambda>(cx, cz). coord_key cx cz"
  from inv have p: "set p = ?k ` set (concat (map cells_xz E))"
    and d: "distinct (concat (map cells_xz E))"
    and sub: "set (concat (map cells_xz E)) \<subseteq> C"
    and yc: "list_all (\<lambda>b. brick_y b = py \<and> color b = pc) E"
    by (simp_all add: group_inv_def)
  have disj: "set (concat (map cells_xz E)) \<inter> set R = {}"
  proof (rule ccontr)
    assume "set (concat (map cells_xz E)) \<inter> set R \<noteq> {}"
    then obtain q where q: "q \<in> set (concat (map cells_xz E))" "q \<in> set R" by blast
    from q(1) have "?k q \<in> set p" unfolding p by (rule imageI)
    with R(3) q(2) show False by blast
  qed
  have cells: "concat (map cells_xz (E @ [nb])) = concat (map cells_xz E) @ R"
    by (simp add: nb(1))
  show ?thesis
    unfolding group_inv_def cells
    using p d sub yc disj R(1,2) p' nb(2,3) by (simp add: image_Un)
qed

lemma place_coord_group:
  assumes cs: "set cs = (\<lambda>(cx, cz). coord_key cx cz) ` C" and ts: "types_ok ts"
    and c: "c \<in> C" and inv: "group_inv C py pc p E"
  shows "\<exists>p' E'. place_coord u ts cs py pc c (p, out0 @ E) = (p', out0 @ E')
      \<and> group_inv C py pc p' E' \<and> c \<in> set (concat (map cells_xz E'))
      \<and> set (concat (map cells_xz E)) \<subseteq> set (concat (map cells_xz E'))"
proof -
  let ?k = "\<lambda>(cx, cz). coord_key cx cz"
  obtain cx cz where cxz: "c = (cx, cz)" by (cases c)
  from inv have p: "set p = ?k ` set (concat (map cells_xz E))" by (simp add: group_inv_def)
  have key_in: "q \<in> C" if "?k q \<in> set cs" for q
  proof -
    from that cs obtain q' where "q' \<in> C" "?k q = ?k q'" by auto
    then show ?thesis by (cases q; cases q') (simp add: coord_key_inj)
  qed
  show ?thesis
  proof (cases "coord_key cx cz \<in> set p")
    case True
    then obtain q where q: "q \<in> set (concat (map cells_xz E))" "coord_key cx cz = ?k q"
      unfolding p by (rule imageE)
    obtain qx qz where "q = (qx, qz)" by (cases q)
    with q(2) have "q = (cx, cz)" by (simp add: coord_key_inj)
    with q(1) have "(cx, cz) \<in> set (concat (map cells_xz E))" by (simp only:)
    with True inv cxz show ?thesis
      by (intro exI [of _ p] exI [of _ E]) (simp add: place_coord_def)
  next
    case False
    show ?thesis
    proof (cases "findBestFit cs p cx cz ts")
      case None
      define nb where "nb = \<lparr>brick_id = u (length (out0 @ E)), brick_x = cx, brick_y = py, brick_z = cz,
                      color = pc, sizeX = Some 1, sizeZ = Some 1,
                      rotation = None, specialType = None,
                      offsetX = None, offsetY = None, offsetZ = None\<rparr>"
      have step: "place_coord u ts cs py pc c (p, out0 @ E) = (set_add (coord_key cx cz) p, out0 @ (E @ [nb]))"
        using None False cxz by (simp add: place_coord_def nb_def)
      have cells: "cells_xz nb = [(cx, cz)]"
        by (simp add: cells_xz_def nb_def or_num_def rect_cells_def)
      have "group_inv C py pc (set_add (coord_key cx cz) p) (E @ [nb])"
      proof (rule group_inv_add [OF inv cells])
        show "brick_y nb = py" "color nb = pc" by (simp_all add: nb_def)
        show "distinct [(cx, cz)]" by simp
        show "set [(cx, cz)] \<subseteq> C" using c cxz by simp
        show "\<forall>q\<in>set [(cx, cz)]. ?k q \<notin> set p" using False by simp
        show "set (set_add (coord_key cx cz) p) = set p \<union> ?k ` set [(cx, cz)]"
          by (auto simp: set_add_def)
      qed
      with step cxz cells show ?thesis
        by (intro exI [of _ "set_add (coord_key cx cz) p"] exI [of _ "E @ [nb]"]) auto
    next
      case (Some tr)
      obtain t r where tr: "tr = (t, r)" by (cases tr)
      define w where "w = (if r then type_sizeZ t else type_sizeX t)"
      define d where "d = (if r then type_sizeX t else type_sizeZ t)"
      define p' where "p' = fold (\<lambda>(px, pz) p. set_add (coord_key px pz) p) (rect_cells cx cz w d) p"
      define nb where "nb = \<lparr>brick_id = u (length (out0 @ E)), brick_x = cx, brick_y = py, brick_z = cz,
                       color = pc, sizeX = Some w, sizeZ = Some d,
                       rotation = Some (if r then 90 else 0), specialType = None,
                       offsetX = None, offsetY = None, offsetZ = None\<rparr>"
      from Some tr have fb: "t \<in> set ts" "fits cs p cx cz w d"
        using findBestFit_Some [of cs p cx cz ts t r] by (simp_all add: w_def d_def)
      from fb(1) ts have wd: "1 \<le> w" "1 \<le> d"
        by (auto simp: types_ok_def list_all_iff w_def d_def)
      have step: "place_coord u ts cs py pc c (p, out0 @ E) = (p', out0 @ (E @ [nb]))"
        using Some tr False cxz
        by (simp add: place_coord_def nb_def p'_def w_def d_def Let_def)
      have cells: "cells_xz nb = rect_cells cx cz w d"
        using wd by (simp add: cells_xz_def nb_def or_num_def)
      from fb(2) have fit: "\<forall>q \<in> set (rect_cells cx cz w d). ?k q \<in> set cs \<and> ?k q \<notin> set p"
        by (auto simp: fits_def list_all_iff)
      have "group_inv C py pc p' (E @ [nb])"
      proof (rule group_inv_add [OF inv cells])
        show "brick_y nb = py" "color nb = pc" by (simp_all add: nb_def)
        show "distinct (rect_cells cx cz w d)" by (rule distinct_rect_cells)
        show "set (rect_cells cx cz w d) \<subseteq> C" using fit key_in by blast
        show "\<forall>q\<in>set (rect_cells cx cz w d). ?k q \<notin> set p" using fit by blast
        show "set p' = set p \<union> ?k ` set (rect_cells cx cz w d)"
          unfolding p'_def by (rule set_fold_set_add_cells)
      qed
      moreover have "c \<in> set (concat (map cells_xz (E @ [nb])))"
        using origin_in_rect_cells [OF wd, of cx cz] cxz by (simp add: cells)
      ultimately show ?thesis using step
        by (intro exI [of _ p'] exI [of _ "E @ [nb]"]) auto
    qed
  qed
qed

lemma fold_place_coord_group:
  assumes cs: "set cs = (\<lambda>(cx, cz). coord_key cx cz) ` C" and ts: "types_ok ts"
    and L: "set L \<subseteq> C" and inv: "group_inv C py pc p E"
  shows "\<exists>p' E'. fold (place_coord u ts cs py pc) L (p, out0 @ E) = (p', out0 @ E')
      \<and> group_inv C py pc p' E'
      \<and> set L \<union> set (concat (map cells_xz E)) \<subseteq> set (concat (map cells_xz E'))"
  using L inv
proof (induction L arbitrary: p E)
  case Nil
  then show ?case by auto
next
  case (Cons c L)
  from Cons.prems(1) have c: "c \<in> C" and L: "set L \<subseteq> C" by simp_all
  from place_coord_group [OF cs ts c Cons.prems(2), of u out0] obtain p1 E1 where
    s1: "place_coord u ts cs py pc c (p, out0 @ E) = (p1, out0 @ E1)"
    and i1: "group_inv C py pc p1 E1" and c1: "c \<in> set (concat (map cells_xz E1))"
    and m1: "set (concat (map cells_xz E)) \<subseteq> set (concat (map cells_xz E1))"
    by blast
  from Cons.IH [OF L i1] obtain p' E' where
    s2: "fold (place_coord u ts cs py pc) L (p1, out0 @ E1) = (p', out0 @ E')"
    and i2: "group_inv C py pc p' E'"
    and m2: "set L \<union> set (concat (map cells_xz E1)) \<subseteq> set (concat (map cells_xz E'))"
    by blast
  have "fold (place_coord u ts cs py pc) (c # L) (p, out0 @ E) = (p', out0 @ E')"
    by (simp add: s1 s2)
  moreover have "set (c # L) \<union> set (concat (map cells_xz E)) \<subseteq> set (concat (map cells_xz E'))"
  proof -
    from c1 m1 m2
    have "insert c (set L) \<union> set (concat (map cells_xz E)) \<subseteq> set (concat (map cells_xz E'))"
      by blast
    then show ?thesis by (simp only: list.simps(15))
  qed
  ultimately show ?case using i2 by blast
qed

lemma process_group_cover:
  assumes ts: "types_ok ts" and cs: "set cs = (\<lambda>(cx, cz). coord_key cx cz) ` C"
    and pc: "CHR '','' \<notin> set pc"
  shows "\<exists>E. process_group u ts (num_to_string py @ '','' @ pc, cs) out0 = out0 @ E
      \<and> distinct (concat (map cells_xz E)) \<and> set (concat (map cells_xz E)) = C
      \<and> list_all (\<lambda>b. brick_y b = py \<and> color b = pc) E"
proof -
  let ?L = "sort_coords (map parse_coord cs)"
  have sp: "js_split CHR '','' (num_to_string py @ '','' @ pc) = [num_to_string py, pc]"
    using pc by (simp add: js_split_append js_split_no_sep num_to_string_no_comma)
  have "set ?L = parse_coord ` set cs" by (simp add: sort_coords_def)
  also have "\<dots> = C" unfolding cs by (force simp: image_image parse_coord_coord_key)
  finally have L: "set ?L = C" .
  have inv0: "group_inv C py pc [] []" by (simp add: group_inv_def)
  from fold_place_coord_group [OF cs ts _ inv0, of ?L u out0] L obtain p' E' where
    f: "fold (place_coord u ts cs py pc) ?L ([], out0) = (p', out0 @ E')"
    and i: "group_inv C py pc p' E'"
    and m: "set ?L \<subseteq> set (concat (map cells_xz E'))"
    by auto
  have "process_group u ts (num_to_string py @ '','' @ pc, cs) out0 = out0 @ E'"
    by (simp add: process_group_def sp parseInt_num_to_string num_def f del: append.simps)
  moreover from i m L have "set (concat (map cells_xz E')) = C" by (auto simp: group_inv_def)
  ultimately show ?thesis using i by (auto simp: group_inv_def)
qed


subsection \<open>All groups\<close>

lemma brick_cells_cells_xz:
  "brick_cells b = map (\<lambda>(px, pz). (px, brick_y b, pz, color b)) (cells_xz b)"
  by (simp add: brick_cells_def cells_xz_def)

lemma concat_brick_cells_group:
  assumes "list_all (\<lambda>b. brick_y b = py \<and> color b = pc) E"
  shows "concat (map brick_cells E) = map (\<lambda>(px, pz). (px, py, pz, pc)) (concat (map cells_xz E))"
  using assms by (induction E) (simp_all add: brick_cells_cells_xz)

lemma raw_cell_layer_key: "raw_cell a = raw_cell b \<Longrightarrow> layer_key a = layer_key b"
  by (simp add: raw_cell_def layer_key_def)

lemma entry_cover:
  assumes free: "\<forall>v \<in> set raw. CHR '','' \<notin> set (raw_color v)"
    and e: "(k, cs) \<in> set (bricksByLayerColor raw)"
  shows "\<exists>E. process_group u standardTypes (k, cs) out0 = out0 @ E
      \<and> distinct (concat (map brick_cells E))
      \<and> set (concat (map brick_cells E)) = raw_cell ` {b \<in> set raw. layer_key b = k}"
proof -
  let ?G = "{b \<in> set raw. layer_key b = k}"
  define C where "C = (\<lambda>b. (raw_x b, raw_z b)) ` ?G"
  from e have "k \<in> fst ` set (bricksByLayerColor raw)" by force
  then obtain b0 where b0: "b0 \<in> set raw" "k = layer_key b0"
    unfolding groups_facts(3) by blast
  define py where "py = raw_y b0"
  define pc where "pc = raw_color b0"
  have k: "k = num_to_string py @ '','' @ pc" by (simp add: b0(2) layer_key_def py_def pc_def)
  from free b0(1) have pcf: "CHR '','' \<notin> set pc" by (simp add: pc_def)
  have "set cs = (\<lambda>b. coord_key (raw_x b) (raw_z b)) ` ?G"
    using groups_entry(2) [OF e] by (simp add: groups_facts(4))
  then have cs: "set cs = (\<lambda>(cx, cz). coord_key cx cz) ` C"
    by (simp add: C_def image_image)
  from process_group_cover [OF types_ok_standardTypes cs pcf, of u py out0] obtain E where
    E: "process_group u standardTypes (k, cs) out0 = out0 @ E"
    "distinct (concat (map cells_xz E))" "set (concat (map cells_xz E)) = C"
    "list_all (\<lambda>b. brick_y b = py \<and> color b = pc) E"
    unfolding k by blast
  have cc: "concat (map brick_cells E) = map (\<lambda>(px, pz). (px, py, pz, pc)) (concat (map cells_xz E))"
    using E(4) by (rule concat_brick_cells_group)
  have "distinct (concat (map brick_cells E))"
    unfolding cc using E(2) by (auto simp: distinct_map inj_on_def)
  moreover have "set (concat (map brick_cells E)) = raw_cell ` ?G"
  proof -
    have grp: "raw_y b = py \<and> raw_color b = pc" if "b \<in> ?G" for b
      using that b0(2) by (simp add: layer_key_inj py_def pc_def)
    have "set (concat (map brick_cells E)) = (\<lambda>(px, pz). (px, py, pz, pc)) ` C"
      unfolding cc by (simp only: set_map E(3))
    also have "\<dots> = (\<lambda>b. (raw_x b, py, raw_z b, pc)) ` ?G"
      by (simp add: C_def image_image)
    also have "\<dots> = raw_cell ` ?G"
      by (rule image_cong [OF refl]) (use grp in \<open>simp add: raw_cell_def\<close>)
    finally show ?thesis .
  qed
  ultimately show ?thesis using E(1) by blast
qed

lemma fold_cover:
  assumes free: "\<forall>v \<in> set raw. CHR '','' \<notin> set (raw_color v)"
    and es: "set es \<subseteq> set (bricksByLayerColor raw)" "distinct (map fst es)"
    and out0: "distinct (concat (map brick_cells out0))"
      "set (concat (map brick_cells out0)) \<inter> raw_cell ` {b \<in> set raw. layer_key b \<in> fst ` set es} = {}"
  shows "distinct (concat (map brick_cells (fold (process_group u standardTypes) es out0)))
    \<and> set (concat (map brick_cells (fold (process_group u standardTypes) es out0)))
        = set (concat (map brick_cells out0)) \<union> raw_cell ` {b \<in> set raw. layer_key b \<in> fst ` set es}"
  using es out0
proof (induction es arbitrary: out0)
  case Nil
  then show ?case by simp
next
  case (Cons e es)
  obtain k cs where e: "e = (k, cs)" by (cases e)
  define A where "A = set (concat (map brick_cells out0))"
  define Gk where "Gk = raw_cell ` {b \<in> set raw. layer_key b = k}"
  define Ges where "Ges = raw_cell ` {b \<in> set raw. layer_key b \<in> fst ` set es}"
  from Cons.prems(1) e have ein: "(k, cs) \<in> set (bricksByLayerColor raw)"
    and sub: "set es \<subseteq> set (bricksByLayerColor raw)" by simp_all
  from Cons.prems(2) e have knew: "k \<notin> fst ` set es" and des: "distinct (map fst es)" by simp_all
  from entry_cover [OF free ein, of u out0] obtain E where
    E: "process_group u standardTypes (k, cs) out0 = out0 @ E"
    "distinct (concat (map brick_cells E))" "set (concat (map brick_cells E)) = Gk"
    unfolding Gk_def by blast
  have "{b \<in> set raw. layer_key b \<in> fst ` set (e # es)}
      = {b \<in> set raw. layer_key b = k} \<union> {b \<in> set raw. layer_key b \<in> fst ` set es}"
    unfolding e by auto
  then have all: "raw_cell ` {b \<in> set raw. layer_key b \<in> fst ` set (e # es)} = Gk \<union> Ges"
    unfolding Gk_def Ges_def by (simp only: image_Un)
  have kes: "Gk \<inter> Ges = {}"
  proof (rule ccontr)
    assume "Gk \<inter> Ges \<noteq> {}"
    then obtain a b where ab: "layer_key a = k" "layer_key b \<in> fst ` set es" "raw_cell a = raw_cell b"
      unfolding Gk_def Ges_def by blast
    from ab(3) have "layer_key a = layer_key b" by (rule raw_cell_layer_key)
    with ab(1,2) knew show False by simp
  qed
  from Cons.prems(4) have A_disj: "A \<inter> (Gk \<union> Ges) = {}"
    unfolding all A_def .
  have c1: "concat (map brick_cells (out0 @ E)) = concat (map brick_cells out0) @ concat (map brick_cells E)"
    by simp
  have s1: "set (concat (map brick_cells (out0 @ E))) = A \<union> Gk"
    unfolding c1 A_def by (simp only: set_append E(3))
  have "A \<inter> Gk = {}" using A_disj by blast
  then have d1: "distinct (concat (map brick_cells (out0 @ E)))"
    unfolding c1 distinct_append E(3) using Cons.prems(3) E(2) by (simp only: A_def simp_thms)
  have i1: "set (concat (map brick_cells (out0 @ E)))
        \<inter> raw_cell ` {b \<in> set raw. layer_key b \<in> fst ` set es} = {}"
    unfolding s1 Ges_def [symmetric] using A_disj kes by blast
  have step: "fold (process_group u standardTypes) (e # es) out0
      = fold (process_group u standardTypes) es (out0 @ E)"
    by (simp only: fold_simps o_apply e E(1))
  from Cons.IH [OF sub des d1 i1]
  have r: "distinct (concat (map brick_cells (fold (process_group u standardTypes) es (out0 @ E))))"
    "set (concat (map brick_cells (fold (process_group u standardTypes) es (out0 @ E))))
        = (A \<union> Gk) \<union> Ges"
    unfolding s1 Ges_def [symmetric] by (rule conjunct1, rule conjunct2)
  have "(A \<union> Gk) \<union> Ges = A \<union> (Gk \<union> Ges)" by (rule Un_assoc)
  with r show ?case
    unfolding step all A_def [symmetric] by (simp only: simp_thms)
qed

text \<open>
  When no color of the input contains a comma, the cells covered by the emitted bricks
  are pairwise distinct, and together they are exactly the cells of the input voxels,
  each with its layer and color.
\<close>

lemma optimizeBricks_coverage:
  assumes "\<forall>v \<in> set rawBricks. CHR '','' \<notin> set (raw_color v)"
  shows "distinct (concat (map brick_cells (optimizeBricks uuidv4 rawBricks)))
    \<and> set (concat (map brick_cells (optimizeBricks uuidv4 rawBricks))) = raw_cell ` set rawBricks"
proof -
  have "{b \<in> set rawBricks. layer_key b \<in> fst ` set (bricksByLayerColor rawBricks)} = set rawBricks"
    unfolding groups_facts(3) by blast
  with fold_cover [OF assms subset_refl groups_facts(1), of "[]" uuidv4]
  show ?thesis by (simp add: optimizeBricks_def)
qed

section \<open>A commit through the closure of an earlier render\<close>

lemma inj_ex_uuid: "inj ex_uuid"
proof (rule injI)
  fix m n assume "ex_uuid m = ex_uuid n"
  then have "nat_to_string m = nat_to_string n" by (simp add: ex_uuid_def)
  then have "parse_digits (nat_to_string m) = parse_digits (nat_to_string n)" by simp
  then show "m = n" by (simp only: parse_digits_nat_to_string)
qed

lemma reachable_ex_three: "reachable ex_three"
proof -
  have a: "reachable (addBrick ''a'' 0 0 0 app_init)"
    by (rule r_addBrick [OF r_init]) (simp_all add: app_init_def held_ids_def)
  have b: "reachable (addBrick ''b'' 1 0 0 (addBrick ''a'' 0 0 0 app_init))"
    by (rule r_addBrick [OF a]) (simp_all add: app_init_def held_ids_def addBrick_def saveToHistory_def Let_def)
  show ?thesis unfolding ex_three_def
    by (rule r_addBrick [OF b]) (simp_all add: app_init_def held_ids_def addBrick_def saveToHistory_def Let_def)
qed

lemma reachable_ex_pending: "reachable ex_pending"
  unfolding ex_pending_def
  by (intro r_undo r_handleGenerate_start reachable_ex_three)

lemma reachable_ex_stale: "reachable ex_stale"
  unfolding ex_stale_def
proof (rule r_handleGenerate_result [OF reachable_ex_pending inj_ex_uuid])
  have "liftedGroup ex_pending = None" by code_simp
  then show "range ex_uuid \<inter> held_ids ex_pending = {}" by (simp add: held_ids_def)
qed

text \<open>
  Claim C3, at an input where the code departs from it. Three bricks are placed; a
  generation request is started; while it is pending, undo is called three times; the
  request resolves and commits its brick. One undo followed by one redo then leaves
  the board \<open>[a]\<close>, not the board that was committed: the commit kept the history
  entries up to the index of the render that started the request, and moved the index
  to 1, where the old snapshot \<open>[a]\<close> still is.
\<close>

theorem stale_commit_round_trip:
  "reachable ex_pending \<and> reachable ex_stale
   \<and> currentHistoryIndex ex_three = 3
   \<and> map brick_id (bricks ex_stale) = [''id-0'']
   \<and> map brick_id (bricks (redo (undo ex_stale))) = [''a'']
   \<and> map brick_id (bricks (app_redo (app_undo ex_stale))) = [''a'']
   \<and> bricks (redo (undo ex_stale)) \<noteq> bricks ex_stale"
proof -
  have "currentHistoryIndex ex_three = 3" by code_simp
  moreover have "map brick_id (bricks ex_stale) = [''id-0'']" by code_simp
  moreover have "map brick_id (bricks (redo (undo ex_stale))) = [''a'']" by code_simp
  moreover have "map brick_id (bricks (app_redo (app_undo ex_stale))) = [''a'']" by code_simp
  moreover have "bricks (redo (undo ex_stale)) \<noteq> bricks ex_stale" by code_simp
  ultimately show ?thesis using reachable_ex_pending reachable_ex_stale by simp
qed

text \<open>
  Claim C4, at an input where the code departs from it. In the same run, the commit
  follows three undo calls. It does not truncate the history at the current index 0
  but at the index 3 of the render that started the request: the history has five
  entries and the index is 1. The next redo is not a no-op: it makes \<open>[a, b]\<close> the board.
\<close>

theorem stale_commit_keeps_redo:
  "reachable ex_stale
   \<and> currentHistoryIndex ex_pending = 0 \<and> length (history ex_pending) = 4
   \<and> length (history ex_stale) = 5 \<and> currentHistoryIndex ex_stale = 1
   \<and> history ex_stale \<noteq> take (currentHistoryIndex ex_pending + 1) (history ex_pending) @ [bricks ex_stale]
   \<and> map brick_id (bricks ex_stale) = [''id-0'']
   \<and> map brick_id (bricks (redo ex_stale)) = [''a'', ''b'']
   \<and> map brick_id (bricks (app_redo ex_stale)) = [''a'', ''b'']
   \<and> app_redo ex_stale \<noteq> ex_stale"
proof -
  have "currentHistoryIndex ex_pending = 0" "length (history ex_pending) = 4"
    "length (history ex_stale) = 5" "currentHistoryIndex ex_stale = 1"
    "history ex_stale \<noteq> take (currentHistoryIndex ex_pending + 1) (history ex_pending) @ [bricks ex_stale]"
    "map brick_id (bricks ex_stale) = [''id-0'']"
    "map brick_id (bricks (redo ex_stale)) = [''a'', ''b'']"
    "map brick_id (bricks (app_redo ex_stale)) = [''a'', ''b'']"
    "app_redo ex_stale \<noteq> ex_stale"
    by code_simp+
  then show ?thesis using reachable_ex_stale by simp
qed

end
